theory Spec2Isabelle
  imports Main "HOL-Library.Char_ord" "HOL-Library.List_Lexorder" "HOL-Library.AList"
begin

section \<open>Python strings\<close>

text \<open>
  The scripts work on Python \<open>str\<close> values. A character is modelled by a \<^typ>\<open>char\<close>, read as
  the code point of the same number (U+0000 to U+00FF), and a string by a \<^typ>\<open>string\<close>, so
  \<^const>\<open>length\<close> counts code points as \<open>len\<close> does. On this range \<open>str.lower\<close> maps one
  character to one character and stays in the range; strings with code points above U+00FF
  are outside the model.

  Strings are compared as Python compares them: lexicographically by code point, a proper
  prefix being smaller (the order of \<open>List_Lexorder\<close> over \<open>Char_ord\<close>).
\<close>

definition is_space :: "char \<Rightarrow> bool" where
  \<comment> \<open>\<open>str.isspace\<close> on one character, which is also the class \<open>\s\<close> of \<open>re\<close> on a \<open>str\<close> pattern\<close>
  "is_space c = (let n = (of_char c :: nat) in
      (9 \<le> n \<and> n \<le> 13) \<or> (28 \<le> n \<and> n \<le> 32) \<or> n = 133 \<or> n = 160)"

definition is_upper :: "char \<Rightarrow> bool" where
  \<comment> \<open>the characters \<open>str.lower\<close> changes: A-Z and the capital letters of Latin-1\<close>
  "is_upper c = (let n = (of_char c :: nat) in
      (65 \<le> n \<and> n \<le> 90) \<or> (192 \<le> n \<and> n \<le> 222 \<and> n \<noteq> 215))"

definition lower_char :: "char \<Rightarrow> char" where
  "lower_char c = (if is_upper c then char_of ((of_char c :: nat) + 32) else c)"

definition lower :: "string \<Rightarrow> string" where
  \<comment> \<open>\<open>s.lower()\<close>\<close>
  "lower s = map lower_char s"

definition is_az09 :: "char \<Rightarrow> bool" where
  \<comment> \<open>the character class \<open>[a-z0-9]\<close>\<close>
  "is_az09 c = (let n = (of_char c :: nat) in
      (97 \<le> n \<and> n \<le> 122) \<or> (48 \<le> n \<and> n \<le> 57))"

definition is_hyphen :: "char \<Rightarrow> bool" where
  "is_hyphen c = (c = CHR ''-'')"

definition strip_with :: "(char \<Rightarrow> bool) \<Rightarrow> string \<Rightarrow> string" where
  \<comment> \<open>\<open>s.strip(chars)\<close>: drop the characters of the class at both ends\<close>
  "strip_with P s = rev (dropWhile P (rev (dropWhile P s)))"

definition strip :: "string \<Rightarrow> string" where
  \<comment> \<open>\<open>s.strip()\<close>\<close>
  "strip s = strip_with is_space s"

function sub_runs :: "(char \<Rightarrow> bool) \<Rightarrow> char \<Rightarrow> string \<Rightarrow> string" where
  \<comment> \<open>\<open>re.sub(r"[class]+", r, s)\<close>: every maximal run of the class becomes the one character \<open>r\<close>\<close>
  "sub_runs P r [] = []"
| "sub_runs P r (c # cs) =
     (if P c then r # sub_runs P r (dropWhile P cs) else c # sub_runs P r cs)"
  by pat_completeness auto
termination
  by (relation "measure (\<lambda>(P, r, s). length s)")
     (auto simp: length_dropWhile_le le_imp_less_Suc)

function split_ws :: "string \<Rightarrow> string list" where
  \<comment> \<open>\<open>s.split()\<close>: the maximal runs of characters that are not whitespace\<close>
  "split_ws s =
     (case dropWhile is_space s of
        [] \<Rightarrow> []
      | c # cs \<Rightarrow> takeWhile (\<lambda>x. \<not> is_space x) (c # cs)
                 # split_ws (dropWhile (\<lambda>x. \<not> is_space x) cs))"
  by pat_completeness auto
termination
proof (relation "measure length", goal_cases)
  case 1
  show ?case by simp
next
  case (2 s c cs)
  have "length (dropWhile (\<lambda>x. \<not> is_space x) cs) \<le> length cs"
    by (rule length_dropWhile_le)
  moreover have "length (c # cs) \<le> length s"
    using length_dropWhile_le [of is_space s] 2 by simp
  ultimately show ?case by simp
qed

declare split_ws.simps [simp del]

section \<open>Canonicalizer (build-ingredient-ontology.py)\<close>

definition slug_char :: "char \<Rightarrow> bool" where
  \<comment> \<open>the characters that \<open>re.sub(r"[^a-z0-9\s-]", "", s)\<close> keeps\<close>
  "slug_char c = (is_az09 c \<or> is_space c \<or> is_hyphen c)"

definition slugify :: "string \<Rightarrow> string" where
  "slugify text =
     (let s = strip (lower text);
          s = filter slug_char s;
          s = sub_runs is_space (CHR ''-'') s;
          s = sub_runs is_hyphen (CHR ''-'') s
      in strip_with is_hyphen s)"


definition endswith :: "string \<Rightarrow> string \<Rightarrow> bool" where
  \<comment> \<open>\<open>base.endswith(suf)\<close>\<close>
  "endswith base suf =
     (length suf \<le> length base \<and> drop (length base - length suf) base = suf)"

definition slice_to_neg :: "string \<Rightarrow> nat \<Rightarrow> string" where
  \<comment> \<open>\<open>base[: -n]\<close>; for \<open>n = 0\<close> Python reads \<open>base[:0]\<close>, the empty string\<close>
  "slice_to_neg base n = (if n = 0 then [] else take (length base - n) base)"

definition suffixes :: "string list" where
  "suffixes =
     [''-raw'', ''-cooked'', ''-frozen'', ''-canned'', ''-peeled'', ''-seeded'',
      ''-boneless'', ''-skinless'', ''-dried'', ''-ground'', ''-fresh'', ''-smoked'',
      ''-roasted'', ''-toasted'', ''-whole'', ''-sliced'', ''-diced'', ''-minced'',
      ''-chopped'', ''-shredded'', ''-crushed'']"

fun strip_loop :: "string list \<Rightarrow> string \<Rightarrow> string" where
  \<comment> \<open>the loop \<open>for suf in suffixes\<close> of \<open>slug_to_equivalence_class\<close>; it has no \<open>break\<close>\<close>
  "strip_loop [] base = base"
| "strip_loop (suf # sufs) base =
     (if endswith base suf then strip_loop sufs (slice_to_neg base (length suf))
      else strip_loop sufs base)"

definition slug_to_equivalence_class :: "string \<Rightarrow> string" where
  "slug_to_equivalence_class slug = strip_loop suffixes slug"

section \<open>Lexical enrichment (build-ingredient-ontology.py)\<close>

definition COLOR_WORDS :: "string set" where
  "COLOR_WORDS = {''red'', ''green'', ''yellow'', ''orange'', ''purple'', ''white'',
     ''black'', ''brown'', ''golden''}"

definition FORM_WORDS :: "string set" where
  "FORM_WORDS = {''raw'', ''cooked'', ''dried'', ''ground'', ''fresh'', ''frozen'',
     ''canned'', ''whole'', ''powdered''}"

definition PREP_WORDS :: "string set" where
  "PREP_WORDS = {''chopped'', ''diced'', ''minced'', ''sliced'', ''shredded'', ''peeled'',
     ''seeded'', ''grated'', ''crushed'', ''roasted'', ''toasted'', ''smoked'', ''blanched'',
     ''sauteed'', ''melted'', ''softened'', ''julienned'', ''cubed'', ''mashed'', ''pureed''}"

definition SIZE_WORDS :: "string set" where
  "SIZE_WORDS = {''small'', ''medium'', ''large'', ''thin'', ''thick'', ''baby'', ''mini''}"

definition add_token :: "string \<Rightarrow> string set \<Rightarrow> string set" where
  \<comment> \<open>the body of the inner loop: \<open>cleaned = re.sub(r"[^a-z0-9]", "", t)\<close>, kept when it is
      non-empty and of length at least 2\<close>
  "add_token t token_set =
     (let cleaned = filter is_az09 t
      in if cleaned \<noteq> [] \<and> 2 \<le> length cleaned then insert cleaned token_set
         else token_set)"

definition collect_tokens :: "string list \<Rightarrow> string set" where
  \<comment> \<open>the two nested loops that fill \<open>token_set\<close>\<close>
  "collect_tokens surface_forms =
     fold (\<lambda>sf token_set. fold add_token (split_ws (lower sf)) token_set)
       surface_forms {}"

definition derive_tokens :: "string list \<Rightarrow> string list" where
  "derive_tokens surface_forms = sorted_list_of_set (collect_tokens surface_forms)"

record modifiers =
  color :: "string list"
  form :: "string list"
  prep :: "string list"
  size' :: "string list"
  origin :: "string list"

definition derive_modifiers :: "string list \<Rightarrow> modifiers" where
  "derive_modifiers tokens =
     \<lparr>color = filter (\<lambda>t. t \<in> COLOR_WORDS) tokens,
      form = filter (\<lambda>t. t \<in> FORM_WORDS) tokens,
      prep = filter (\<lambda>t. t \<in> PREP_WORDS) tokens,
      size' = filter (\<lambda>t. t \<in> SIZE_WORDS) tokens,
      origin = []\<rparr>"

section \<open>Record normalizer and merge engine (build-ingredient-ontology.py)\<close>

fun dedup_loop :: "string set \<Rightarrow> string list \<Rightarrow> string list \<Rightarrow> string list" where
  \<comment> \<open>the loop of \<open>dedup_ordered\<close>, with its two variables \<open>seen\<close> and \<open>result\<close>\<close>
  "dedup_loop seen result [] = result"
| "dedup_loop seen result (item # items) =
     (let key = strip (lower item)
      in if key \<noteq> [] \<and> key \<notin> seen
         then dedup_loop (insert key seen) (result @ [strip item]) items
         else dedup_loop seen result items)"

definition dedup_ordered :: "string list \<Rightarrow> string list" where
  "dedup_ordered items = dedup_loop {} [] items"

datatype json = JNull | JBool bool | JInt int | JStr string | JOther

definition normalize_fdc_id :: "(string \<Rightarrow> int option) \<Rightarrow> json \<Rightarrow> int option" where
  \<comment> \<open>\<open>int_of_str\<close> is Python's \<open>int(val)\<close> on a string, \<open>None\<close> for its \<open>ValueError\<close>.
      A \<open>bool\<close> is an \<open>int\<close> in Python: \<open>True\<close> passes the first test as the number 1.\<close>
  "normalize_fdc_id int_of_str val =
     (case val of
        JNull \<Rightarrow> None
      | JBool b \<Rightarrow> (if b then Some 1 else None)
      | JInt n \<Rightarrow> (if n > 0 then Some n else None)
      | JStr v \<Rightarrow> (case int_of_str v of
                     Some n \<Rightarrow> (if n > 0 then Some n else None)
                   | None \<Rightarrow> None)
      | JOther \<Rightarrow> None)"

record raw_entry =
  slug :: string
  displayName :: string
  surfaceForms :: "string list"

record norm_entry = raw_entry +
  fdcId :: "int option"

record s1_item =
  s1_normalized_name :: string
  s1_canonical_name :: "string option"
  s1_synonyms :: "string list option"
  s1_fdc_id :: json

record s2_item =
  s2_slug :: string
  s2_display_name :: string
  s2_synonym_array :: "string list option"
  s2_fdc_id :: json

text \<open>
  A \<open>dict\<close> keyed by slug is an association list with the update of \<open>AList\<close>: a new key goes
  to the end, an old key keeps its place and takes the new value, as in Python. The fields
  read with \<open>item.get\<close> are options, \<open>None\<close> for an absent key.
\<close>

definition load_s1 :: "(string \<Rightarrow> int option) \<Rightarrow> s1_item list \<Rightarrow> (string \<times> norm_entry) list" where
  "load_s1 int_of_str raw =
     fold (\<lambda>item entries.
        let name = s1_normalized_name item;
            slug = slugify name;
            display = (case s1_canonical_name item of Some d \<Rightarrow> d | None \<Rightarrow> name);
            synonyms = (case s1_synonyms item of Some l \<Rightarrow> l | None \<Rightarrow> []);
            fdc_id = normalize_fdc_id int_of_str (s1_fdc_id item);
            surface_forms = dedup_ordered ([display, name] @ synonyms)
        in AList.update slug
             \<lparr>slug = slug, displayName = display, surfaceForms = surface_forms,
              fdcId = fdc_id\<rparr> entries)
       raw []"

definition load_s2 :: "(string \<Rightarrow> int option) \<Rightarrow> s2_item list \<Rightarrow> (string \<times> norm_entry) list" where
  "load_s2 int_of_str raw =
     fold (\<lambda>item entries.
        let slug = s2_slug item;
            display = s2_display_name item;
            synonyms = (case s2_synonym_array item of Some l \<Rightarrow> l | None \<Rightarrow> []);
            fdc_id = normalize_fdc_id int_of_str (s2_fdc_id item);
            surface_forms = dedup_ordered ([display] @ synonyms)
        in AList.update slug
             \<lparr>slug = slug, displayName = display, surfaceForms = surface_forms,
              fdcId = fdc_id\<rparr> entries)
       raw []"

datatype error = TypeError

definition py_or :: "int option \<Rightarrow> int option \<Rightarrow> int option" where
  \<comment> \<open>\<open>a or b\<close> on optional integers: \<open>None\<close> and 0 are false\<close>
  "py_or a b = (if a = None \<or> a = Some 0 then b else a)"

fun merge_slug :: "norm_entry option \<Rightarrow> norm_entry option \<Rightarrow> string \<Rightarrow> error + norm_entry" where
  \<comment> \<open>the body of the loop of \<open>merge_entries\<close>; in the last branch \<open>e1\<close> is \<open>None\<close> and
      \<open>e1["displayName"]\<close> raises\<close>
  "merge_slug (Some e1) (Some e2) s =
     Inr \<lparr>slug = s, displayName = displayName e2,
          surfaceForms = dedup_ordered (surfaceForms e2 @ surfaceForms e1),
          fdcId = py_or (fdcId e2) (fdcId e1)\<rparr>"
| "merge_slug None (Some e2) s =
     Inr \<lparr>slug = s, displayName = displayName e2, surfaceForms = surfaceForms e2,
          fdcId = fdcId e2\<rparr>"
| "merge_slug (Some e1) None s =
     Inr \<lparr>slug = s, displayName = displayName e1, surfaceForms = surfaceForms e1,
          fdcId = fdcId e1\<rparr>"
| "merge_slug None None s = Inl TypeError"

fun merge_loop ::
  "(string \<times> norm_entry) list \<Rightarrow> (string \<times> norm_entry) list \<Rightarrow> string list
     \<Rightarrow> norm_entry list \<Rightarrow> error + norm_entry list" where
  "merge_loop s1 s2 [] merged = Inr merged"
| "merge_loop s1 s2 (s # all_slugs) merged =
     (case merge_slug (map_of s1 s) (map_of s2 s) s of
        Inl e \<Rightarrow> Inl e
      | Inr m \<Rightarrow> merge_loop s1 s2 all_slugs (merged @ [m]))"

definition merge_entries ::
  "(string \<times> norm_entry) list \<Rightarrow> (string \<times> norm_entry) list \<Rightarrow> error + norm_entry list" where
  "merge_entries s1 s2 =
     (let all_slugs = sorted_list_of_set (set (map fst s1 @ map fst s2))
      in merge_loop s1 s2 all_slugs [])"

section \<open>Enricher (build-ingredient-ontology.py)\<close>

record fdc_ref =
  fdc_fdcId :: "int option"
  fdc_dataType :: "string option"
  fdc_description :: "string option"

record taxonomy_stub =
  group' :: "string option"
  family :: "string option"
  genus :: "string option"
  species :: "string option"

record entry = raw_entry +
  tokens :: "string list"
  modifiers :: modifiers
  aliases :: "(string \<times> string) list"
  fdc :: fdc_ref
  equivalenceClass :: string
  taxonomy :: taxonomy_stub
  substitutions :: "string list"

definition enrich_entry :: "norm_entry \<Rightarrow> entry" where
  "enrich_entry raw =
     (let tokens = derive_tokens (surfaceForms raw);
          modifiers = derive_modifiers tokens;
          equivalence_class = slug_to_equivalence_class (slug raw)
      in \<lparr>slug = slug raw, displayName = displayName raw, surfaceForms = surfaceForms raw,
          tokens = tokens, modifiers = modifiers, aliases = [],
          fdc = \<lparr>fdc_fdcId = fdcId raw, fdc_dataType = None, fdc_description = None\<rparr>,
          equivalenceClass = equivalence_class,
          taxonomy = \<lparr>group' = None, family = None, genus = None, species = None\<rparr>,
          substitutions = []\<rparr>)"

definition main_build ::
  "(string \<Rightarrow> int option) \<Rightarrow> s1_item list \<Rightarrow> s2_item list \<Rightarrow> error + entry list" where
  \<comment> \<open>\<open>main\<close> of the build script: the ontology it writes\<close>
  "main_build int_of_str raw1 raw2 =
     (case merge_entries (load_s1 int_of_str raw1) (load_s2 int_of_str raw2) of
        Inl e \<Rightarrow> Inl e
      | Inr merged \<Rightarrow> Inr (map enrich_entry merged))"

section \<open>Patch applier (patch-ontology-top200.py, patch-ontology-next100.py)\<close>

text \<open>
  The two patch scripts differ in their data (\<open>SURFACE_FORM_PATCHES\<close>, \<open>NEW_ENTRIES\<close>) and in
  their progress messages only: \<open>enrich_new_entry\<close> and the loops of \<open>main\<close> are the same
  text in both. One model stands for both, with the data as a parameter.
\<close>

definition COLOR_WORDS_patch :: "string set" where
  "COLOR_WORDS_patch = {''red'', ''green'', ''yellow'', ''orange'', ''purple'', ''white'',
     ''black'', ''brown'', ''golden''}"

definition FORM_WORDS_patch :: "string set" where
  "FORM_WORDS_patch = {''raw'', ''cooked'', ''dried'', ''ground'', ''fresh'', ''frozen'',
     ''canned'', ''whole'', ''powdered''}"

definition PREP_WORDS_patch :: "string set" where
  "PREP_WORDS_patch = {''chopped'', ''diced'', ''minced'', ''sliced'', ''shredded'',
     ''peeled'', ''seeded'', ''grated'', ''crushed'', ''roasted'', ''toasted'', ''smoked'',
     ''melted'', ''softened''}"

definition SIZE_WORDS_patch :: "string set" where
  "SIZE_WORDS_patch = {''small'', ''medium'', ''large'', ''thin'', ''thick'', ''baby'',
     ''mini''}"

record candidate = raw_entry +
  c_fdc :: fdc_ref
  c_equivalenceClass :: "string option"

definition enrich_new_entry :: "candidate \<Rightarrow> entry" where
  \<comment> \<open>\<open>c_equivalenceClass\<close> is \<open>None\<close> when the key is absent:
      \<open>raw.get("equivalenceClass", raw["slug"])\<close>\<close>
  "enrich_new_entry raw =
     (let tokens = fold (\<lambda>sf tokens. fold add_token (split_ws (lower sf)) tokens)
                     (surfaceForms raw) {};
          sorted_tokens = sorted_list_of_set tokens
      in \<lparr>slug = slug raw, displayName = displayName raw, surfaceForms = surfaceForms raw,
          tokens = sorted_tokens,
          modifiers =
            \<lparr>color = filter (\<lambda>t. t \<in> COLOR_WORDS_patch) sorted_tokens,
             form = filter (\<lambda>t. t \<in> FORM_WORDS_patch) sorted_tokens,
             prep = filter (\<lambda>t. t \<in> PREP_WORDS_patch) sorted_tokens,
             size' = filter (\<lambda>t. t \<in> SIZE_WORDS_patch) sorted_tokens,
             origin = []\<rparr>,
          aliases = [],
          fdc = c_fdc raw,
          equivalenceClass =
            (case c_equivalenceClass raw of Some c \<Rightarrow> c | None \<Rightarrow> slug raw),
          taxonomy = \<lparr>group' = None, family = None, genus = None, species = None\<rparr>,
          substitutions = []\<rparr>)"

fun add_forms :: "string set \<Rightarrow> string list \<Rightarrow> string list \<Rightarrow> string list" where
  \<comment> \<open>the inner loop of both steps: \<open>existing\<close> is the set of lowered forms, the second
      argument the entry's \<open>surfaceForms\<close>, appended to in place\<close>
  "add_forms existing sfs [] = sfs"
| "add_forms existing sfs (new_form # new_forms) =
     (if lower new_form \<notin> existing
      then add_forms (insert (lower new_form) existing) (sfs @ [new_form]) new_forms
      else add_forms existing sfs new_forms)"

definition merge_forms :: "entry \<Rightarrow> string list \<Rightarrow> entry" where
  \<comment> \<open>\<open>existing = {sf.lower() for sf in entry["surfaceForms"]}\<close> and the loop over the new forms\<close>
  "merge_forms e new_forms =
     e\<lparr>surfaceForms :=
         add_forms (set (map lower (surfaceForms e))) (surfaceForms e) new_forms\<rparr>"

text \<open>
  \<open>ontology\<close> is a list of entry objects and \<open>slug_index\<close> maps a slug to one of these same
  objects. The list is the store: an object is named by its position in \<open>ontology\<close>, which
  only grows at the end until the final sort, and \<open>slug_index\<close> maps a slug to a position.
  An update through \<open>slug_index\<close> is an update of the list at that position.
  \<open>warnings\<close> are the slugs of the \<open>WARNING\<close> lines printed, in order; the other progress
  messages and the counts are not modelled.
\<close>

record pstate =
  ontology :: "entry list"
  slug_index :: "string \<rightharpoonup> nat"
  warnings :: "string list"

definition build_index :: "entry list \<Rightarrow> (string \<rightharpoonup> nat)" where
  \<comment> \<open>\<open>{e["slug"]: e for e in ontology}\<close>: of two entries with one slug the later one stays\<close>
  "build_index ont = fold (\<lambda>(i, e) idx. idx(slug e \<mapsto> i)) (enumerate 0 ont) Map.empty"

fun patch_surface_forms :: "(string \<times> string list) list \<Rightarrow> pstate \<Rightarrow> pstate" where
  \<comment> \<open>step 1, over the items of \<open>SURFACE_FORM_PATCHES\<close>\<close>
  "patch_surface_forms [] st = st"
| "patch_surface_forms ((s, new_forms) # rest) st =
     (case slug_index st s of
        Some i \<Rightarrow>
          patch_surface_forms rest
            (st\<lparr>ontology := (ontology st)[i := merge_forms (ontology st ! i) new_forms]\<rparr>)
      | None \<Rightarrow> patch_surface_forms rest (st\<lparr>warnings := warnings st @ [s]\<rparr>))"

fun add_new_entries :: "candidate list \<Rightarrow> pstate \<Rightarrow> pstate" where
  \<comment> \<open>step 2, over \<open>NEW_ENTRIES\<close>\<close>
  "add_new_entries [] st = st"
| "add_new_entries (raw # rest) st =
     (case slug_index st (slug raw) of
        None \<Rightarrow>
          add_new_entries rest
            (st\<lparr>ontology := ontology st @ [enrich_new_entry raw],
                slug_index := (slug_index st)(slug raw \<mapsto> length (ontology st))\<rparr>)
      | Some i \<Rightarrow>
          add_new_entries rest
            (st\<lparr>ontology :=
                  (ontology st)[i := merge_forms (ontology st ! i) (surfaceForms raw)]\<rparr>))"

record patch_spec =
  SURFACE_FORM_PATCHES :: "(string \<times> string list) list"
  NEW_ENTRIES :: "candidate list"

definition patch_steps :: "patch_spec \<Rightarrow> entry list \<Rightarrow> pstate" where
  \<comment> \<open>\<open>main\<close> up to the sort: the index, step 1 and step 2\<close>
  "patch_steps P ont =
     add_new_entries (NEW_ENTRIES P)
       (patch_surface_forms (SURFACE_FORM_PATCHES P)
          \<lparr>ontology = ont, slug_index = build_index ont, warnings = []\<rparr>)"

definition main_patch :: "patch_spec \<Rightarrow> entry list \<Rightarrow> pstate" where
  \<comment> \<open>\<open>main\<close> of a patch script: \<open>ontology.sort(key=lambda e: e["slug"])\<close> is stable\<close>
  "main_patch P ont =
     (let st = patch_steps P ont in st\<lparr>ontology := sort_key slug (ontology st)\<rparr>)"

definition apply_patch :: "entry list \<Rightarrow> patch_spec \<Rightarrow> entry list" where
  \<comment> \<open>the knowledge base that a run of the script on \<open>ont\<close> writes back\<close>
  "apply_patch ont P = ontology (main_patch P ont)"

section \<open>The specification's wording\<close>



section \<open>Notions used in the proofs about the patch applier\<close>

definition only_appends :: "entry \<Rightarrow> entry \<Rightarrow> bool" where
  \<comment> \<open>\<open>e'\<close> is \<open>e\<close> with surface forms appended: every other field is the same\<close>
  "only_appends e e' =
     (e'\<lparr>surfaceForms := surfaceForms e\<rparr> = e
      \<and> take (length (surfaceForms e)) (surfaceForms e') = surfaceForms e)"

definition index_ok :: "string list \<Rightarrow> (string \<rightharpoonup> nat) \<Rightarrow> bool" where
  \<comment> \<open>the invariant of \<open>slug_index\<close> against the slugs of \<open>ontology\<close>: a slug is a key when
      an entry has it, and its value is the last position of the slug\<close>
  "index_ok slugs idx =
     (\<forall>s. case idx s of
            None \<Rightarrow> s \<notin> set slugs
          | Some i \<Rightarrow> i < length slugs \<and> slugs ! i = s
                      \<and> (\<forall>j<length slugs. i < j \<longrightarrow> slugs ! j \<noteq> s))"

definition covered :: "pstate \<Rightarrow> string \<Rightarrow> string list \<Rightarrow> bool" where
  \<comment> \<open>the entry that \<open>slug_index\<close> gives for the slug has all the forms, case ignored\<close>
  "covered st s fs =
     (case slug_index st s of
        None \<Rightarrow> False
      | Some i \<Rightarrow> lower ` set fs \<subseteq> lower ` set (surfaceForms (ontology st ! i)))"

definition state_ok :: "pstate \<Rightarrow> bool" where
  "state_ok st = index_ok (map slug (ontology st)) (slug_index st)"

definition grows :: "pstate \<Rightarrow> pstate \<Rightarrow> bool" where
  \<comment> \<open>from \<open>st\<close> to \<open>st'\<close> entries keep their positions and only have surface forms
      appended, and \<open>slug_index\<close> keeps its keys and values\<close>
  "grows st st' =
     (length (ontology st) \<le> length (ontology st')
      \<and> (\<forall>i<length (ontology st). only_appends (ontology st ! i) (ontology st' ! i))
      \<and> (\<forall>s i. slug_index st s = Some i \<longrightarrow> slug_index st' s = Some i))"

section \<open>Properties of the canonicalizer\<close>

subsection \<open>Slugs are fixed points of \<open>slugify\<close>\<close>

lemma lower_char_fix: "is_az09 c \<or> is_hyphen c \<Longrightarrow> lower_char c = c"
  by (auto simp: lower_char_def is_upper_def is_az09_def is_hyphen_def Let_def)

lemma not_space_slug: "is_az09 c \<or> is_hyphen c \<Longrightarrow> \<not> is_space c"
  by (auto simp: is_space_def is_az09_def is_hyphen_def Let_def)

lemma strip_with_ends:
  assumes "s = [] \<or> (\<not> P (hd s) \<and> \<not> P (last s))"
  shows "strip_with P s = s"
proof (cases "s = []")
  case True
  then show ?thesis by (simp add: strip_with_def)
next
  case False
  with assms have h: "\<not> P (hd s)" and l: "\<not> P (last s)" by auto
  from False h have "dropWhile P s = s"
    by (simp add: dropWhile_eq_self_iff)
  moreover from False l have "dropWhile P (rev s) = rev s"
    by (simp add: dropWhile_eq_self_iff hd_rev)
  ultimately show ?thesis by (simp add: strip_with_def)
qed

lemma strip_with_none: "\<forall>c\<in>set s. \<not> P c \<Longrightarrow> strip_with P s = s"
  by (rule strip_with_ends) (cases s, auto)

lemma sub_runs_none: "\<forall>c\<in>set s. \<not> P c \<Longrightarrow> sub_runs P r s = s"
  by (induction s) auto

lemma set_sub_runs: "set (sub_runs P r s) \<subseteq> insert r {c \<in> set s. \<not> P c}"
  by (induction P r s rule: sub_runs.induct) (auto dest: set_dropWhileD)

lemma sub_runs_hd: "sub_runs P r s \<noteq> [] \<Longrightarrow> hd (sub_runs P r s) = (if P (hd s) then r else hd s)"
  by (cases s) auto

lemma sub_runs_succ:
  "successively (\<lambda>a b. \<not> (a = r \<and> b = r)) (sub_runs (\<lambda>c. c = r) r s)"
proof (induction "\<lambda>c. c = r" r s rule: sub_runs.induct)
  case (1 r)
  show ?case by simp
next
  case (2 r c cs)
  show ?case
  proof (cases "c = r")
    case True
    let ?t = "dropWhile (\<lambda>c. c = r) cs"
    have "?t = [] \<or> hd ?t \<noteq> r"
      using hd_dropWhile [of "\<lambda>c. c = r" cs] by auto
    then have "sub_runs (\<lambda>c. c = r) r ?t = [] \<or> hd (sub_runs (\<lambda>c. c = r) r ?t) \<noteq> r"
    proof
      assume "?t = []"
      then show ?thesis by (simp del: dropWhile_eq_Nil_conv)
    next
      assume ne: "hd ?t \<noteq> r"
      show ?thesis
      proof (cases ?t)
        case Nil
        then show ?thesis by (simp del: dropWhile_eq_Nil_conv)
      next
        case (Cons a as)
        with ne have "a \<noteq> r" by simp
        with Cons show ?thesis by (simp del: dropWhile_eq_Nil_conv)
      qed
    qed
    moreover have "successively (\<lambda>a b. \<not> (a = r \<and> b = r)) (sub_runs (\<lambda>c. c = r) r ?t)"
      using 2(1) True by simp
    moreover have "sub_runs (\<lambda>c. c = r) r (c # cs) = r # sub_runs (\<lambda>c. c = r) r ?t"
      using True by simp
    ultimately show ?thesis
      by (simp only: successively_Cons) blast
  next
    case False
    with 2(2) show ?thesis by (auto simp: successively_Cons)
  qed
qed

lemma sub_runs_fix:
  "successively (\<lambda>a b. \<not> (a = r \<and> b = r)) s \<Longrightarrow> sub_runs (\<lambda>c. c = r) r s = s"
proof (induction s)
  case Nil
  show ?case by simp
next
  case (Cons c cs)
  then show ?case
    by (cases cs) (auto simp: successively_Cons)
qed


lemma successively_dropWhile: "successively R s \<Longrightarrow> successively R (dropWhile P s)"
  using successively_append_iff [of R "takeWhile P s" "dropWhile P s"] by simp

lemma set_strip_with: "set (strip_with P s) \<subseteq> set s"
  by (auto simp: strip_with_def dest!: set_dropWhileD)

lemma successively_strip_with: "successively R s \<Longrightarrow> successively R (strip_with P s)"
proof -
  assume "successively R s"
  then have "successively R (dropWhile P s)"
    by (rule successively_dropWhile)
  then have "successively (\<lambda>x y. R y x) (rev (dropWhile P s))"
    by simp
  then have "successively (\<lambda>x y. R y x) (dropWhile P (rev (dropWhile P s)))"
    by (rule successively_dropWhile)
  then show ?thesis
    by (simp add: strip_with_def)
qed

lemma strip_with_stripped:
  "strip_with P s = [] \<or> (\<not> P (hd (strip_with P s)) \<and> \<not> P (last (strip_with P s)))"
proof (cases "strip_with P s = []")
  case True
  then show ?thesis by simp
next
  case False
  define w where "w = dropWhile P s"
  define v where "v = dropWhile P (rev w)"
  have t: "strip_with P s = rev v"
    by (simp add: strip_with_def v_def w_def)
  with False have v: "v \<noteq> []" by simp
  then have "\<not> P (hd v)"
    unfolding v_def by (rule hd_dropWhile)
  then have l: "\<not> P (last (rev v))"
    using v by (simp add: last_rev)
  have "rev w = takeWhile P (rev w) @ v"
    by (simp add: v_def)
  then have "last (rev w) = last v"
    using v by (metis last_appendR)
  moreover have w: "w \<noteq> []"
    using v by (auto simp: v_def)
  ultimately have "last v = hd w"
    by (simp add: last_rev)
  moreover have "\<not> P (hd w)"
    using w unfolding w_def by (rule hd_dropWhile)
  ultimately have "\<not> P (hd (rev v))"
    using v by (simp add: hd_rev)
  with l t show ?thesis by simp
qed

lemma slugify_shape:
  fixes s :: string
  defines "t \<equiv> slugify s"
  shows "(\<forall>c\<in>set t. is_az09 c \<or> is_hyphen c)"
    and "successively (\<lambda>a b. \<not> (a = CHR ''-'' \<and> b = CHR ''-'')) t"
    and "t = [] \<or> (\<not> is_hyphen (hd t) \<and> \<not> is_hyphen (last t))"
proof -
  define u1 where "u1 = filter slug_char (strip (lower s))"
  define u2 where "u2 = sub_runs is_space (CHR ''-'') u1"
  define u3 where "u3 = sub_runs is_hyphen (CHR ''-'') u2"
  have t: "t = strip_with is_hyphen u3"
    by (simp add: t_def slugify_def Let_def u1_def u2_def u3_def)
  have hy: "is_hyphen = (\<lambda>c. c = CHR ''-'')"
    by (simp add: is_hyphen_def fun_eq_iff)
  have "\<forall>c\<in>set u1. slug_char c"
    by (simp add: u1_def)
  then have "\<forall>c\<in>set u2. is_az09 c \<or> is_hyphen c"
    using set_sub_runs [of is_space "CHR ''-''" u1]
    by (auto simp: u2_def slug_char_def is_hyphen_def)
  then have "\<forall>c\<in>set u3. is_az09 c \<or> is_hyphen c"
    using set_sub_runs [of is_hyphen "CHR ''-''" u2]
    by (auto simp: u3_def is_hyphen_def)
  then show "\<forall>c\<in>set t. is_az09 c \<or> is_hyphen c"
    using set_strip_with [of is_hyphen u3] by (auto simp: t)
  have "successively (\<lambda>a b. \<not> (a = CHR ''-'' \<and> b = CHR ''-'')) u3"
    unfolding u3_def hy by (rule sub_runs_succ)
  then show "successively (\<lambda>a b. \<not> (a = CHR ''-'' \<and> b = CHR ''-'')) t"
    unfolding t by (rule successively_strip_with)
  show "t = [] \<or> (\<not> is_hyphen (hd t) \<and> \<not> is_hyphen (last t))"
    unfolding t by (rule strip_with_stripped)
qed

lemma slugify_fix:
  assumes "\<forall>c\<in>set t. is_az09 c \<or> is_hyphen c"
    and "successively (\<lambda>a b. \<not> (a = CHR ''-'' \<and> b = CHR ''-'')) t"
    and "t = [] \<or> (\<not> is_hyphen (hd t) \<and> \<not> is_hyphen (last t))"
  shows "slugify t = t"
proof -
  have 1: "lower t = t"
    using assms(1) by (simp add: lower_def lower_char_fix map_idI)
  have ns: "\<forall>c\<in>set t. \<not> is_space c"
    using assms(1) not_space_slug by blast
  have 2: "strip t = t"
    unfolding strip_def using ns by (rule strip_with_none)
  have 3: "filter slug_char t = t"
    using assms(1) by (auto simp: slug_char_def filter_id_conv)
  have 4: "sub_runs is_space (CHR ''-'') t = t"
    using ns by (rule sub_runs_none)
  have hy: "is_hyphen = (\<lambda>c. c = CHR ''-'')"
    by (simp add: is_hyphen_def fun_eq_iff)
  have 5: "sub_runs is_hyphen (CHR ''-'') t = t"
    unfolding hy using assms(2) by (rule sub_runs_fix)
  have 6: "strip_with is_hyphen t = t"
    using assms(3) by (rule strip_with_ends)
  show ?thesis
    by (simp add: slugify_def Let_def 1 2 3 4 5 6)
qed

text \<open>
  C10: \<open>slugify\<close> is idempotent. For every string \<open>s\<close>, \<open>slugify(slugify(s))\<close> is
  \<open>slugify(s)\<close>: an output of \<open>slugify\<close> has only the characters a-z, 0-9 and the hyphen,
  no two hyphens in a row and no hyphen at either end, and every such string is left
  unchanged by each of the five steps.
\<close>

theorem slugify_idempotent: "slugify (slugify s) = slugify s"
  by (rule slugify_fix) (rule slugify_shape)+

subsection \<open>Equivalence classes: one pass over the suffix list\<close>

lemma endswith_iff: "endswith base suf \<longleftrightarrow> (\<exists>p. base = p @ suf)"
proof
  assume "endswith base suf"
  then have "base = take (length base - length suf) base @ suf"
    by (metis append_take_drop_id endswith_def)
  then show "\<exists>p. base = p @ suf" ..
next
  assume "\<exists>p. base = p @ suf"
  then show "endswith base suf"
    by (auto simp: endswith_def)
qed

lemma slice_to_neg_append: "suf \<noteq> [] \<Longrightarrow> slice_to_neg (p @ suf) (length suf) = p"
  by (simp add: slice_to_neg_def)

lemma first_occurrence_unique:
  "xs @ a # ys = xs' @ a # ys' \<Longrightarrow> a \<notin> set xs \<Longrightarrow> a \<notin> set xs' \<Longrightarrow> xs = xs'"
proof (induction xs arbitrary: xs')
  case Nil
  then show ?case by (cases xs') auto
next
  case (Cons x xs)
  then show ?case by (cases xs') auto
qed

lemma hyphen_word_unique:
  assumes a: "a = CHR ''-'' # u" "CHR ''-'' \<notin> set u"
    and b: "b = CHR ''-'' # v" "CHR ''-'' \<notin> set v"
    and ea: "endswith x a" and eb: "endswith x b"
  shows "a = b"
proof -
  from ea obtain p where p: "x = p @ CHR ''-'' # u"
    by (auto simp: endswith_iff a)
  from eb obtain q where q: "x = q @ CHR ''-'' # v"
    by (auto simp: endswith_iff b)
  from p q have "p @ CHR ''-'' # u = q @ CHR ''-'' # v"
    by simp
  from arg_cong [OF this, of rev]
  have r: "rev u @ CHR ''-'' # rev p = rev v @ CHR ''-'' # rev q"
    by simp
  have "CHR ''-'' \<notin> set (rev u)" "CHR ''-'' \<notin> set (rev v)"
    using a(2) b(2) by simp_all
  with r have "rev u = rev v"
    by (rule first_occurrence_unique)
  then show ?thesis
    by (simp add: a b)
qed

lemma suffixes_shape:
  "\<forall>suf\<in>set suffixes. \<exists>u. suf = CHR ''-'' # u \<and> CHR ''-'' \<notin> set u"
  by (simp add: suffixes_def)

lemma suffixes_distinct: "distinct suffixes"
  by (simp add: suffixes_def)

lemma suffixes_unique:
  assumes "a \<in> set suffixes" "b \<in> set suffixes" "endswith x a" "endswith x b"
  shows "a = b"
proof -
  from assms(1) suffixes_shape obtain u where "a = CHR ''-'' # u" "CHR ''-'' \<notin> set u"
    by blast
  moreover from assms(2) suffixes_shape obtain v where "b = CHR ''-'' # v" "CHR ''-'' \<notin> set v"
    by blast
  ultimately show ?thesis
    using assms(3,4) by (rule hyphen_word_unique)
qed

lemma strip_loop_no_match:
  "\<forall>suf\<in>set sufs. \<not> endswith base suf \<Longrightarrow> strip_loop sufs base = base"
  by (induction sufs) auto

lemma strip_loop_first_match:
  "i < length sufs \<Longrightarrow> \<forall>k<i. \<not> endswith base (sufs ! k) \<Longrightarrow> endswith base (sufs ! i)
    \<Longrightarrow> strip_loop sufs base
        = strip_loop (drop (Suc i) sufs) (slice_to_neg base (length (sufs ! i)))"
proof (induction sufs arbitrary: i)
  case Nil
  then show ?case by simp
next
  case (Cons suf sufs)
  show ?case
  proof (cases i)
    case 0
    with Cons.prems show ?thesis by simp
  next
    case (Suc n)
    with Cons.prems have "\<not> endswith base suf" by auto
    moreover have "strip_loop sufs base
        = strip_loop (drop (Suc n) sufs) (slice_to_neg base (length (sufs ! n)))"
      using Cons.prems Suc by (intro Cons.IH) auto
    ultimately show ?thesis using Suc by simp
  qed
qed

lemma equivalence_class_match:
  assumes i: "i < length suffixes" and e: "endswith s (suffixes ! i)"
  shows "slug_to_equivalence_class s
      = strip_loop (drop (Suc i) suffixes) (slice_to_neg s (length (suffixes ! i)))"
proof -
  have "\<forall>k<i. \<not> endswith s (suffixes ! k)"
  proof (intro allI impI notI)
    fix k assume k: "k < i" and "endswith s (suffixes ! k)"
    from k i have "suffixes ! k \<in> set suffixes" "suffixes ! i \<in> set suffixes"
      by simp_all
    then have "suffixes ! k = suffixes ! i"
      using \<open>endswith s (suffixes ! k)\<close> e by (rule suffixes_unique)
    with k i suffixes_distinct show False
      by (simp add: nth_eq_iff_index_eq)
  qed
  with i e show ?thesis
    unfolding slug_to_equivalence_class_def by (intro strip_loop_first_match)
qed

lemma later_suffixes_no_match:
  assumes j: "j < length suffixes" and ji: "j \<le> i"
  shows "\<forall>suf\<in>set (drop (Suc i) suffixes). \<not> endswith (b @ suffixes ! j) suf"
proof (intro ballI notI)
  fix suf assume m: "suf \<in> set (drop (Suc i) suffixes)" and e: "endswith (b @ suffixes ! j) suf"
  from m obtain k where k: "suf = suffixes ! k" "Suc i \<le> k" "k < length suffixes"
    by (auto simp: in_set_conv_nth)
  have "endswith (b @ suffixes ! j) (suffixes ! j)"
    by (auto simp: endswith_iff)
  moreover have "suffixes ! k \<in> set suffixes" "suffixes ! j \<in> set suffixes"
    using k j by simp_all
  ultimately have "suffixes ! k = suffixes ! j"
    using e k(1) suffixes_unique by blast
  with k j ji suffixes_distinct show False
    by (simp add: nth_eq_iff_index_eq)
qed

lemma equivalence_class_stacked:
  assumes i: "i < length suffixes" and j: "j < length suffixes"
    and b: "\<forall>suf\<in>set suffixes. \<not> endswith b suf"
  shows "slug_to_equivalence_class (b @ suffixes ! j @ suffixes ! i)
      = (if i < j then b else b @ suffixes ! j)"
proof -
  let ?si = "suffixes ! i" and ?sj = "suffixes ! j"
  have ne: "?si \<noteq> []" "?sj \<noteq> []"
    using suffixes_shape nth_mem [OF i] nth_mem [OF j] by auto
  have "endswith (b @ ?sj @ ?si) ?si"
    by (simp add: endswith_iff)
  with i have "slug_to_equivalence_class (b @ ?sj @ ?si)
      = strip_loop (drop (Suc i) suffixes) (slice_to_neg (b @ ?sj @ ?si) (length ?si))"
    by (rule equivalence_class_match)
  also have "slice_to_neg (b @ ?sj @ ?si) (length ?si) = b @ ?sj"
    using slice_to_neg_append [OF ne(1), of "b @ ?sj"] by simp
  finally have 1: "slug_to_equivalence_class (b @ ?sj @ ?si)
      = strip_loop (drop (Suc i) suffixes) (b @ ?sj)" .
  show ?thesis
  proof (cases "i < j")
    case True
    let ?rest = "drop (Suc i) suffixes"
    let ?n = "j - Suc i"
    have n: "?n < length ?rest" and nth: "?rest ! ?n = ?sj"
      using True j by auto
    have e: "endswith (b @ ?sj) (?rest ! ?n)"
      by (simp add: nth endswith_iff)
    have "\<forall>k<?n. \<not> endswith (b @ ?sj) (?rest ! k)"
    proof (intro allI impI notI)
      fix k assume k: "k < ?n" and "endswith (b @ ?sj) (?rest ! k)"
      then have "endswith (b @ ?sj) (suffixes ! (Suc i + k))"
        using True j by simp
      moreover have "endswith (b @ ?sj) ?sj"
        by (simp add: endswith_iff)
      moreover have "suffixes ! (Suc i + k) \<in> set suffixes" "?sj \<in> set suffixes"
        using j k True by simp_all
      ultimately have "suffixes ! (Suc i + k) = ?sj"
        using suffixes_unique by blast
      with k j True suffixes_distinct show False
        by (simp add: nth_eq_iff_index_eq)
    qed
    with n e have "strip_loop ?rest (b @ ?sj)
        = strip_loop (drop (Suc ?n) ?rest) (slice_to_neg (b @ ?sj) (length (?rest ! ?n)))"
      by (intro strip_loop_first_match)
    also have "slice_to_neg (b @ ?sj) (length (?rest ! ?n)) = b"
      unfolding nth using ne(2) by (rule slice_to_neg_append)
    also have "strip_loop (drop (Suc ?n) ?rest) b = b"
      using b by (intro strip_loop_no_match) (auto dest: in_set_dropD)
    finally show ?thesis using 1 True by simp
  next
    case False
    then have "j \<le> i" by simp
    with j have "\<forall>suf\<in>set (drop (Suc i) suffixes). \<not> endswith (b @ ?sj) suf"
      by (rule later_suffixes_no_match)
    then have "strip_loop (drop (Suc i) suffixes) (b @ ?sj) = b @ ?sj"
      by (rule strip_loop_no_match)
    with 1 False show ?thesis by simp
  qed
qed

text \<open>
  C3, as the claim states it, fails: the loop of \<open>slug_to_equivalence_class\<close> has no
  \<open>break\<close>, so after stripping \<open>-raw\<close> (first in the list) from \<open>tomato-diced-raw\<close> it goes
  on and strips \<open>-diced\<close> (later in the list) as well. Two suffixes are removed, and the
  result is not the slug with exactly one suffix removed.
\<close>

theorem equivalence_class_strips_two_suffixes:
  "slug_to_equivalence_class ''tomato-diced-raw'' = ''tomato''
   \<and> slug_to_equivalence_class ''tomato-diced-raw'' \<noteq> ''tomato-diced''"
  by code_simp

text \<open>
  C3, amended: the derivation is one pass over the fixed suffix list, in list order. A slug
  that ends with none of the suffixes is returned unmodified. A slug that ends with a
  suffix (it can end with one of them only) loses it, and the pass goes on with the
  suffixes that come later in the list, on what is left. So of two stacked suffixes both
  are stripped when the outer one comes before the inner one in the list, and only the
  outer one is stripped (the slug is partially normalized) when the inner one is the same
  suffix or comes before it in the list.
\<close>

theorem equivalence_class_single_pass:
  "((\<forall>suf\<in>set suffixes. \<not> endswith s suf) \<longrightarrow> slug_to_equivalence_class s = s)
   \<and> (\<forall>i<length suffixes. endswith s (suffixes ! i) \<longrightarrow>
        slug_to_equivalence_class s
          = strip_loop (drop (Suc i) suffixes) (slice_to_neg s (length (suffixes ! i))))
   \<and> (\<forall>i<length suffixes. \<forall>j<length suffixes.
        (\<forall>suf\<in>set suffixes. \<not> endswith b suf) \<longrightarrow>
        slug_to_equivalence_class (b @ suffixes ! j @ suffixes ! i)
          = (if i < j then b else b @ suffixes ! j))"
proof (intro conjI allI impI)
  assume "\<forall>suf\<in>set suffixes. \<not> endswith s suf"
  then show "slug_to_equivalence_class s = s"
    unfolding slug_to_equivalence_class_def by (rule strip_loop_no_match)
next
  fix i assume "i < length suffixes" "endswith s (suffixes ! i)"
  then show "slug_to_equivalence_class s
      = strip_loop (drop (Suc i) suffixes) (slice_to_neg s (length (suffixes ! i)))"
    by (rule equivalence_class_match)
next
  fix i j
  assume "i < length suffixes" "j < length suffixes" "\<forall>suf\<in>set suffixes. \<not> endswith b suf"
  then show "slug_to_equivalence_class (b @ suffixes ! j @ suffixes ! i)
      = (if i < j then b else b @ suffixes ! j)"
    by (rule equivalence_class_stacked)
qed

theorem equivalence_class_single_pass_witness:
  "slug_to_equivalence_class ''tomato'' = ''tomato''
   \<and> slug_to_equivalence_class ''tomato-raw-diced'' = ''tomato-raw''
   \<and> slug_to_equivalence_class ''tomato-diced-raw'' = ''tomato''"
proof -
  have b: "\<forall>suf\<in>set suffixes. \<not> endswith ''tomato'' suf"
    by (simp add: suffixes_def endswith_def)
  have n: "0 < length suffixes" "16 < length suffixes"
    by (simp_all add: suffixes_def)
  have s: "suffixes ! 0 = ''-raw''" "suffixes ! 16 = ''-diced''"
    by (simp_all add: suffixes_def)
  note t = equivalence_class_single_pass [of "''tomato''" "''tomato''"]
  from t b have 1: "slug_to_equivalence_class ''tomato'' = ''tomato''"
    by blast
  from t n b
  have "slug_to_equivalence_class (''tomato'' @ suffixes ! 0 @ suffixes ! 16)
      = (if (16::nat) < 0 then ''tomato'' else ''tomato'' @ suffixes ! 0)"
    by blast
  then have 2: "slug_to_equivalence_class ''tomato-raw-diced'' = ''tomato-raw''"
    by (simp add: s)
  from t n b
  have "slug_to_equivalence_class (''tomato'' @ suffixes ! 16 @ suffixes ! 0)
      = (if (0::nat) < 16 then ''tomato'' else ''tomato'' @ suffixes ! 16)"
    by blast
  then have 3: "slug_to_equivalence_class ''tomato-diced-raw'' = ''tomato''"
    by (simp add: s)
  from 1 2 3 show ?thesis by simp
qed

section \<open>Properties of the enricher\<close>

subsection \<open>Token derivation\<close>







subsection \<open>The two enrichers\<close>






section \<open>Properties of the normalizer and the merge engine\<close>

subsection \<open>Lowering and stripping\<close>

lemma is_space_lower_char: "is_space (lower_char c) = is_space c"
proof (cases "is_upper c")
  case False
  then show ?thesis by (simp add: lower_char_def)
next
  case True
  then have r: "(65 \<le> (of_char c :: nat) \<and> (of_char c :: nat) \<le> 90)
      \<or> (192 \<le> (of_char c :: nat) \<and> (of_char c :: nat) \<le> 222)"
    by (auto simp: is_upper_def Let_def)
  then have "(of_char c + 32) mod 256 = (of_char c :: nat) + 32"
    by auto
  then have "of_char (lower_char c) = (of_char c :: nat) + 32"
    using True by (simp add: lower_char_def)
  with r show ?thesis
    by (auto simp: is_space_def Let_def)
qed

lemma strip_with_map:
  assumes "\<And>c. P (f c) = P c"
  shows "strip_with P (map f s) = map f (strip_with P s)"
proof -
  have c: "P \<circ> f = P"
    using assms by (simp add: fun_eq_iff)
  show ?thesis
    by (simp add: strip_with_def dropWhile_map rev_map c)
qed

lemma strip_lower: "strip (lower s) = lower (strip s)"
  unfolding strip_def lower_def
  by (rule strip_with_map) (rule is_space_lower_char)

lemma strip_strip: "strip (strip s) = strip s"
  unfolding strip_def
  by (rule strip_with_ends) (rule strip_with_stripped)

lemma key_of_stripped: "strip (lower (strip s)) = strip (lower s)"
  by (simp add: strip_lower strip_strip)

subsection \<open>The dedup rule\<close>

lemma dedup_loop_acc:
  "dedup_loop seen result items = result @ dedup_loop seen [] items"
proof (induction items arbitrary: seen result)
  case Nil
  show ?case by simp
next
  case (Cons item items)
  let ?k = "strip (lower item)"
  show ?case
  proof (cases "?k \<noteq> [] \<and> ?k \<notin> seen")
    case True
    have "dedup_loop seen result (item # items)
        = dedup_loop (insert ?k seen) (result @ [strip item]) items"
      using True by (simp add: Let_def)
    also have "\<dots> = (result @ [strip item]) @ dedup_loop (insert ?k seen) [] items"
      by (rule Cons.IH)
    also have "\<dots> = result @ ([strip item] @ dedup_loop (insert ?k seen) [] items)"
      by simp
    also have "[strip item] @ dedup_loop (insert ?k seen) [] items
        = dedup_loop (insert ?k seen) [strip item] items"
      by (rule Cons.IH [symmetric])
    also have "\<dots> = dedup_loop seen [] (item # items)"
      using True by (simp add: Let_def)
    finally show ?thesis .
  next
    case False
    then have "dedup_loop seen result (item # items) = dedup_loop seen result items"
      by (auto simp: Let_def)
    also have "\<dots> = result @ dedup_loop seen [] items"
      by (rule Cons.IH)
    also have "dedup_loop seen [] items = dedup_loop seen [] (item # items)"
      using False by (auto simp: Let_def)
    finally show ?thesis .
  qed
qed

lemma dedup_loop_Cons:
  "dedup_loop seen [] (item # items) =
     (if strip (lower item) \<noteq> [] \<and> strip (lower item) \<notin> seen
      then strip item # dedup_loop (insert (strip (lower item)) seen) [] items
      else dedup_loop seen [] items)"
  using dedup_loop_acc [of "insert (strip (lower item)) seen" "[strip item]" items]
  by (simp add: Let_def)

lemma dedup_loop_append:
  "dedup_loop seen [] (xs @ ys)
     = dedup_loop seen [] xs
       @ dedup_loop (seen \<union> {k \<in> (\<lambda>x. strip (lower x)) ` set xs. k \<noteq> []}) [] ys"
proof (induction xs arbitrary: seen)
  case Nil
  show ?case by simp
next
  case (Cons x xs)
  let ?k = "strip (lower x)"
  let ?K = "\<lambda>xs. {k \<in> (\<lambda>x. strip (lower x)) ` set xs. k \<noteq> []}"
  show ?case
  proof (cases "?k \<noteq> [] \<and> ?k \<notin> seen")
    case True
    then have s: "insert ?k seen \<union> ?K xs = seen \<union> ?K (x # xs)"
      by auto
    have r: "\<And>zs. dedup_loop seen [] (x # zs) = strip x # dedup_loop (insert ?k seen) [] zs"
      using True by (simp add: dedup_loop_Cons del: dedup_loop.simps)
    have "dedup_loop seen [] ((x # xs) @ ys)
        = strip x # dedup_loop (insert ?k seen) [] (xs @ ys)"
      using r [of "xs @ ys"] by simp
    also have "dedup_loop (insert ?k seen) [] (xs @ ys)
        = dedup_loop (insert ?k seen) [] xs @ dedup_loop (insert ?k seen \<union> ?K xs) [] ys"
      by (rule Cons.IH)
    also have "insert ?k seen \<union> ?K xs = seen \<union> ?K (x # xs)"
      by (rule s)
    also have "strip x # dedup_loop (insert ?k seen) [] xs @ dedup_loop (seen \<union> ?K (x # xs)) [] ys
        = dedup_loop seen [] (x # xs) @ dedup_loop (seen \<union> ?K (x # xs)) [] ys"
      by (simp only: r append_Cons)
    finally show ?thesis .
  next
    case False
    then have s: "seen \<union> ?K xs = seen \<union> ?K (x # xs)"
      by auto
    have r: "\<And>zs. dedup_loop seen [] (x # zs) = dedup_loop seen [] zs"
      using False by (auto simp: dedup_loop_Cons simp del: dedup_loop.simps)
    have "dedup_loop seen [] ((x # xs) @ ys) = dedup_loop seen [] (xs @ ys)"
      using r [of "xs @ ys"] by simp
    also have "\<dots> = dedup_loop seen [] xs @ dedup_loop (seen \<union> ?K xs) [] ys"
      by (rule Cons.IH)
    also have "seen \<union> ?K xs = seen \<union> ?K (x # xs)"
      by (rule s)
    also have "dedup_loop seen [] xs = dedup_loop seen [] (x # xs)"
      by (rule r [symmetric])
    finally show ?thesis .
  qed
qed

lemma dedup_loop_output:
  "(\<forall>y\<in>set (dedup_loop seen [] xs). strip y = y \<and> lower y \<noteq> [] \<and> lower y \<notin> seen)
   \<and> distinct (map lower (dedup_loop seen [] xs))"
proof (induction xs arbitrary: seen)
  case Nil
  show ?case by simp
next
  case (Cons x xs)
  let ?k = "strip (lower x)"
  show ?case
  proof (cases "?k \<noteq> [] \<and> ?k \<notin> seen")
    case True
    define rest where "rest = dedup_loop (insert ?k seen) [] xs"
    have r: "dedup_loop seen [] (x # xs) = strip x # rest"
      using True by (simp add: dedup_loop_Cons rest_def del: dedup_loop.simps)
    have l: "lower (strip x) = ?k"
      by (rule strip_lower [symmetric])
    have "(\<forall>y\<in>set rest. strip y = y \<and> lower y \<noteq> [] \<and> lower y \<notin> insert ?k seen)
        \<and> distinct (map lower rest)"
      unfolding rest_def by (rule Cons.IH)
    then have ih: "\<And>y. y \<in> set rest \<Longrightarrow> strip y = y \<and> lower y \<noteq> [] \<and> lower y \<noteq> ?k \<and> lower y \<notin> seen"
      and d: "distinct (map lower rest)"
      by auto
    have "lower (strip x) \<notin> lower ` set rest"
    proof
      assume "lower (strip x) \<in> lower ` set rest"
      then obtain y where "y \<in> set rest" "lower (strip x) = lower y"
        by blast
      with ih [of y] l show False by metis
    qed
    with d have 1: "distinct (map lower (strip x # rest))"
      by simp
    have 2: "strip (strip x) = strip x \<and> lower (strip x) \<noteq> [] \<and> lower (strip x) \<notin> seen"
      using True by (simp only: l strip_strip) simp
    have "\<forall>y\<in>set (strip x # rest). strip y = y \<and> lower y \<noteq> [] \<and> lower y \<notin> seen"
    proof
      fix y assume "y \<in> set (strip x # rest)"
      then have "y = strip x \<or> y \<in> set rest" by simp
      then show "strip y = y \<and> lower y \<noteq> [] \<and> lower y \<notin> seen"
        using 2 ih [of y] by blast
    qed
    with 1 show ?thesis
      by (simp only: r)
  next
    case False
    then have e: "dedup_loop seen [] (x # xs) = dedup_loop seen [] xs"
      by (auto simp: dedup_loop_Cons simp del: dedup_loop.simps)
    show ?thesis
      unfolding e by (rule Cons.IH)
  qed
qed

lemma dedup_loop_fix:
  assumes "\<forall>y\<in>set ys. strip y = y \<and> lower y \<noteq> [] \<and> lower y \<notin> seen"
    and "distinct (map lower ys)"
  shows "dedup_loop seen [] ys = ys"
  using assms
proof (induction ys arbitrary: seen)
  case Nil
  show ?case by simp
next
  case (Cons y ys)
  have k: "strip (lower y) = lower y"
    using Cons.prems(1) by (simp add: strip_lower)
  have "lower y \<notin> lower ` set ys"
    using Cons.prems(2) by simp
  then have "\<forall>z\<in>set ys. lower z \<noteq> lower y"
    by (metis imageI)
  then have "\<forall>z\<in>set ys. strip z = z \<and> lower z \<noteq> [] \<and> lower z \<notin> insert (lower y) seen"
    using Cons.prems(1) by simp
  moreover have "distinct (map lower ys)"
    using Cons.prems by simp
  ultimately have "dedup_loop (insert (lower y) seen) [] ys = ys"
    by (rule Cons.IH)
  with Cons.prems k show ?case
    by (simp add: dedup_loop_Cons del: dedup_loop.simps)
qed


lemma dedup_ordered_idem: "dedup_ordered (dedup_ordered items) = dedup_ordered items"
  unfolding dedup_ordered_def
  using dedup_loop_output [of "{}" items]
  by (intro dedup_loop_fix) auto

lemma dedup_ordered_prefix:
  "take (length (dedup_ordered xs)) (dedup_ordered (dedup_ordered xs @ ys)) = dedup_ordered xs"
proof -
  let ?d = "dedup_loop {} [] xs"
  have i: "dedup_loop {} [] ?d = ?d"
    using dedup_ordered_idem [of xs] by (simp only: dedup_ordered_def)
  have "dedup_loop {} [] (?d @ ys)
      = dedup_loop {} [] ?d
        @ dedup_loop ({} \<union> {k \<in> (\<lambda>x. strip (lower x)) ` set ?d. k \<noteq> []}) [] ys"
    by (rule dedup_loop_append)
  then have "take (length ?d) (dedup_loop {} [] (?d @ ys)) = ?d"
    by (simp only: i append_eq_conv_conj take_all_iff order_refl take_append) simp
  then show ?thesis
    by (simp only: dedup_ordered_def)
qed

subsection \<open>The loaders\<close>

lemma normalize_fdc_id_positive: "normalize_fdc_id f v \<noteq> Some 0"
  by (cases v) (auto simp: normalize_fdc_id_def split: option.splits)


lemma load_s2_snoc:
  "load_s2 f (raw @ [item]) =
     AList.update (s2_slug item)
       \<lparr>slug = s2_slug item, displayName = s2_display_name item,
        surfaceForms = dedup_ordered ([s2_display_name item]
          @ (case s2_synonym_array item of Some l \<Rightarrow> l | None \<Rightarrow> [])),
        fdcId = normalize_fdc_id f (s2_fdc_id item)\<rparr> (load_s2 f raw)"
  by (simp add: load_s2_def Let_def)


lemma load_s2_normal:
  "map_of (load_s2 f raw) x = Some e \<Longrightarrow>
     slug e = x \<and> fdcId e \<noteq> Some 0 \<and> (\<exists>items. surfaceForms e = dedup_ordered items)"
proof (induction raw arbitrary: e rule: rev_induct)
  case Nil
  then show ?case by (simp add: load_s2_def)
next
  case (snoc item raw)
  show ?case
  proof (cases "x = s2_slug item")
    case True
    with snoc.prems show ?thesis
      by (auto simp: load_s2_snoc update_conv' normalize_fdc_id_positive)
  next
    case False
    with snoc.prems have "map_of (load_s2 f raw) x = Some e"
      by (simp add: load_s2_snoc update_conv')
    then show ?thesis by (rule snoc.IH)
  qed
qed

lemma load_s2_keys: "fst ` set (load_s2 f raw) = s2_slug ` set raw"
proof (induction raw rule: rev_induct)
  case Nil
  show ?case by (simp add: load_s2_def)
next
  case (snoc item raw)
  have "dom (map_of (load_s2 f (raw @ [item])))
      = insert (s2_slug item) (dom (map_of (load_s2 f raw)))"
    unfolding load_s2_snoc by (simp add: update_conv')
  then have "fst ` set (load_s2 f (raw @ [item])) = insert (s2_slug item) (fst ` set (load_s2 f raw))"
    by (simp only: dom_map_of_conv_image_fst)
  with snoc show ?case by auto
qed

subsection \<open>The merge loop\<close>

lemma merge_slug_slug: "merge_slug a b s = Inr m \<Longrightarrow> slug m = s"
  by (cases a; cases b) auto

lemma merge_loop_result:
  assumes "\<forall>s\<in>set slugs. map_of s1 s \<noteq> None \<or> map_of s2 s \<noteq> None"
  shows "\<exists>ms. merge_loop s1 s2 slugs acc = Inr (acc @ ms)
      \<and> list_all2 (\<lambda>s m. merge_slug (map_of s1 s) (map_of s2 s) s = Inr m) slugs ms"
  using assms
proof (induction slugs arbitrary: acc)
  case Nil
  show ?case by simp
next
  case (Cons s slugs)
  from Cons.prems have "map_of s1 s \<noteq> None \<or> map_of s2 s \<noteq> None"
    by simp
  then obtain m where m: "merge_slug (map_of s1 s) (map_of s2 s) s = Inr m"
    by (cases "map_of s1 s"; cases "map_of s2 s") auto
  from Cons.prems have "\<forall>s\<in>set slugs. map_of s1 s \<noteq> None \<or> map_of s2 s \<noteq> None"
    by simp
  from Cons.IH [OF this, of "acc @ [m]"] obtain ms
    where ms: "merge_loop s1 s2 slugs (acc @ [m]) = Inr ((acc @ [m]) @ ms)"
      and all: "list_all2 (\<lambda>s m. merge_slug (map_of s1 s) (map_of s2 s) s = Inr m) slugs ms"
    by blast
  have "merge_loop s1 s2 (s # slugs) acc = Inr (acc @ (m # ms))"
    using m ms by simp
  moreover have "list_all2 (\<lambda>s m. merge_slug (map_of s1 s) (map_of s2 s) s = Inr m)
      (s # slugs) (m # ms)"
    using m all by simp
  ultimately show ?case by blast
qed

lemma merge_entries_result:
  "\<exists>ms. merge_entries s1 s2 = Inr ms
     \<and> map slug ms = sorted_list_of_set (fst ` set s1 \<union> fst ` set s2)
     \<and> (\<forall>m\<in>set ms. merge_slug (map_of s1 (slug m)) (map_of s2 (slug m)) (slug m) = Inr m)"
proof -
  let ?slugs = "sorted_list_of_set (set (map fst s1 @ map fst s2))"
  have k: "set ?slugs = fst ` set s1 \<union> fst ` set s2"
    by simp
  have "\<forall>s\<in>set ?slugs. map_of s1 s \<noteq> None \<or> map_of s2 s \<noteq> None"
    unfolding k by (auto simp: map_of_eq_None_iff)
  from merge_loop_result [OF this, of "[]"] obtain ms
    where ms: "merge_loop s1 s2 ?slugs [] = Inr ms"
      and all: "list_all2 (\<lambda>s m. merge_slug (map_of s1 s) (map_of s2 s) s = Inr m) ?slugs ms"
    by auto
  from all have "list_all2 (\<lambda>s m. slug m = s \<and> merge_slug (map_of s1 (slug m)) (map_of s2 (slug m)) (slug m) = Inr m) ?slugs ms"
    by (rule list_all2_mono) (auto dest: merge_slug_slug)
  then have "map slug ms = ?slugs"
    and "\<forall>m\<in>set ms. merge_slug (map_of s1 (slug m)) (map_of s2 (slug m)) (slug m) = Inr m"
    by (induction rule: list_all2_induct) auto
  with ms show ?thesis
    by (auto simp: merge_entries_def Let_def)
qed

lemma filter_unique_key:
  "distinct (map f xs) \<Longrightarrow> y \<in> set xs \<Longrightarrow> filter (\<lambda>m. f m = f y) xs = [y]"
proof (induction xs)
  case Nil
  then show ?case by simp
next
  case (Cons x xs)
  show ?case
  proof (cases "x = y")
    case True
    from Cons.prems have "f x \<notin> f ` set xs"
      by simp
    with True have "\<forall>m\<in>set xs. f m \<noteq> f y"
      by (metis imageI)
    then have "filter (\<lambda>m. f m = f y) xs = []"
      by (simp add: filter_empty_conv)
    with True show ?thesis by simp
  next
    case False
    from Cons.prems have "f x \<notin> f ` set xs"
      by simp
    moreover from False Cons.prems have "y \<in> set xs"
      by auto
    ultimately have "y \<in> set xs" "f x \<noteq> f y"
      by (metis imageI)+
    with Cons show ?thesis by simp
  qed
qed

lemma merge_entries_lookup:
  assumes "map_of s1 x \<noteq> None \<or> map_of s2 x \<noteq> None"
  shows "\<exists>ms m. merge_entries s1 s2 = Inr ms \<and> filter (\<lambda>m. slug m = x) ms = [m]
     \<and> merge_slug (map_of s1 x) (map_of s2 x) x = Inr m"
proof -
  from merge_entries_result [of s1 s2] obtain ms
    where ms: "merge_entries s1 s2 = Inr ms"
      and sl: "map slug ms = sorted_list_of_set (fst ` set s1 \<union> fst ` set s2)"
      and all: "\<forall>m\<in>set ms. merge_slug (map_of s1 (slug m)) (map_of s2 (slug m)) (slug m) = Inr m"
    by blast
  from assms have "x \<in> fst ` set s1 \<union> fst ` set s2"
    by (auto simp: map_of_eq_None_iff)
  then have "x \<in> set (map slug ms)"
    unfolding sl by simp
  then obtain m where m: "m \<in> set ms" "slug m = x"
    by auto
  have "distinct (map slug ms)"
    unfolding sl by simp
  from filter_unique_key [OF this m(1)] m(2) have "filter (\<lambda>m. slug m = x) ms = [m]"
    by simp
  moreover from all m have "merge_slug (map_of s1 x) (map_of s2 x) x = Inr m"
    by auto
  ultimately show ?thesis using ms by blast
qed

lemma py_or_normal: "a \<noteq> Some 0 \<Longrightarrow> py_or a b = (case a of Some n \<Rightarrow> Some n | None \<Rightarrow> b)"
  by (cases a) (auto simp: py_or_def)

text \<open>
  C2: for every slug present in both normalized source maps (the results of \<open>load_s1\<close> and
  \<open>load_s2\<close>), the merge succeeds and its result has exactly one record of that slug; the
  record has source B's display name, source B's id when source B has one and source A's
  otherwise, and as surface forms the dedup of source B's forms followed by source A's.
  Source B's forms come first: they are the first forms of the merged record, unchanged.
\<close>

theorem merge_present_in_both:
  assumes "map_of (load_s1 f raw1) x = Some e1" and "map_of (load_s2 f raw2) x = Some e2"
  shows "\<exists>merged m. merge_entries (load_s1 f raw1) (load_s2 f raw2) = Inr merged
     \<and> filter (\<lambda>m. slug m = x) merged = [m]
     \<and> displayName m = displayName e2
     \<and> fdcId m = (case fdcId e2 of Some n \<Rightarrow> Some n | None \<Rightarrow> fdcId e1)
     \<and> surfaceForms m = dedup_ordered (surfaceForms e2 @ surfaceForms e1)
     \<and> take (length (surfaceForms e2)) (surfaceForms m) = surfaceForms e2"
proof -
  let ?s1 = "load_s1 f raw1" and ?s2 = "load_s2 f raw2"
  from assms(1) have "map_of ?s1 x \<noteq> None \<or> map_of ?s2 x \<noteq> None"
    by simp
  from merge_entries_lookup [OF this] obtain merged m
    where mg: "merge_entries ?s1 ?s2 = Inr merged"
      and fl: "filter (\<lambda>m. slug m = x) merged = [m]"
      and ms: "merge_slug (map_of ?s1 x) (map_of ?s2 x) x = Inr m"
    by blast
  from ms assms have m: "m = \<lparr>slug = x, displayName = displayName e2,
      surfaceForms = dedup_ordered (surfaceForms e2 @ surfaceForms e1),
      fdcId = py_or (fdcId e2) (fdcId e1)\<rparr>"
    by simp
  from load_s2_normal [OF assms(2)] obtain items
    where id: "fdcId e2 \<noteq> Some 0" and sf: "surfaceForms e2 = dedup_ordered items"
    by blast
  have "take (length (surfaceForms e2)) (dedup_ordered (surfaceForms e2 @ surfaceForms e1))
      = surfaceForms e2"
    unfolding sf by (rule dedup_ordered_prefix)
  with m id have "displayName m = displayName e2"
    and "fdcId m = (case fdcId e2 of Some n \<Rightarrow> Some n | None \<Rightarrow> fdcId e1)"
    and "surfaceForms m = dedup_ordered (surfaceForms e2 @ surfaceForms e1)"
    and "take (length (surfaceForms e2)) (surfaceForms m) = surfaceForms e2"
    by (simp_all add: py_or_normal)
  with mg fl show ?thesis by blast
qed

theorem merge_present_in_both_witness:
  "\<exists>merged m.
     merge_entries
       (load_s1 Map.empty
          [\<lparr>s1_normalized_name = ''Tomato'', s1_canonical_name = Some ''Tomatoes, red'',
            s1_synonyms = Some [''roma tomato''], s1_fdc_id = JInt 170457\<rparr>])
       (load_s2 Map.empty
          [\<lparr>s2_slug = ''tomato'', s2_display_name = ''Tomato'',
            s2_synonym_array = Some [''tomatoes'', ''TOMATO''], s2_fdc_id = JNull\<rparr>])
       = Inr merged
     \<and> filter (\<lambda>m. slug m = ''tomato'') merged = [m]
     \<and> displayName m = ''Tomato''
     \<and> fdcId m = Some 170457
     \<and> surfaceForms m = [''Tomato'', ''tomatoes'', ''Tomatoes, red'', ''roma tomato'']"
proof -
  let ?r1 = "[\<lparr>s1_normalized_name = ''Tomato'', s1_canonical_name = Some ''Tomatoes, red'',
      s1_synonyms = Some [''roma tomato''], s1_fdc_id = JInt 170457\<rparr>]"
  let ?r2 = "[\<lparr>s2_slug = ''tomato'', s2_display_name = ''Tomato'',
      s2_synonym_array = Some [''tomatoes'', ''TOMATO''], s2_fdc_id = JNull\<rparr>]"
  let ?e1 = "\<lparr>slug = ''tomato'', displayName = ''Tomatoes, red'',
      surfaceForms = [''Tomatoes, red'', ''Tomato'', ''roma tomato''], fdcId = Some 170457\<rparr>"
  let ?e2 = "\<lparr>slug = ''tomato'', displayName = ''Tomato'',
      surfaceForms = [''Tomato'', ''tomatoes''], fdcId = None\<rparr>"
  have h1: "map_of (load_s1 Map.empty ?r1) ''tomato'' = Some ?e1"
    by code_simp
  have h2: "map_of (load_s2 Map.empty ?r2) ''tomato'' = Some ?e2"
    by code_simp
  have d: "dedup_ordered ([''Tomato'', ''tomatoes''] @ [''Tomatoes, red'', ''Tomato'', ''roma tomato''])
      = [''Tomato'', ''tomatoes'', ''Tomatoes, red'', ''roma tomato'']"
    by code_simp
  from merge_present_in_both [OF h1 h2] obtain merged m
    where "merge_entries (load_s1 Map.empty ?r1) (load_s2 Map.empty ?r2) = Inr merged"
      and "filter (\<lambda>m. slug m = ''tomato'') merged = [m]"
      and "displayName m = ''Tomato''"
      and "fdcId m = Some 170457"
      and "surfaceForms m = dedup_ordered ([''Tomato'', ''tomatoes'']
            @ [''Tomatoes, red'', ''Tomato'', ''roma tomato''])"
    by auto
  with d show ?thesis by metis
qed

subsection \<open>Scenario 1\<close>

lemma slug_enrich_entry: "slug (enrich_entry m) = slug m"
  by (simp add: enrich_entry_def Let_def)

lemma merge_entries_only_s1:
  assumes "map_of s1 x = Some e1" and "map_of s2 x = None"
  shows "\<exists>ms. merge_entries s1 s2 = Inr ms
     \<and> filter (\<lambda>m. slug m = x) ms
         = [\<lparr>slug = x, displayName = displayName e1, surfaceForms = surfaceForms e1,
             fdcId = fdcId e1\<rparr>]"
proof -
  from assms(1) have "map_of s1 x \<noteq> None \<or> map_of s2 x \<noteq> None"
    by simp
  from merge_entries_lookup [OF this] obtain ms m
    where "merge_entries s1 s2 = Inr ms" "filter (\<lambda>m. slug m = x) ms = [m]"
      "merge_slug (map_of s1 x) (map_of s2 x) x = Inr m"
    by blast
  with assms show ?thesis by auto
qed

text \<open>
  C4, as the claim states it, fails: the slug of a Source A record is
  \<open>slugify(normalized_name)\<close>, so the entry built from the record of the scenario has the
  slug \<open>roma-tomato\<close>, not \<open>tomato\<close>. With this record alone the knowledge base is the one
  entry below.
\<close>

theorem scenario_1_slug_is_roma_tomato:
  "main_build Map.empty
     [\<lparr>s1_normalized_name = ''Roma Tomato'', s1_canonical_name = Some ''Tomato'',
       s1_synonyms = Some [''tomatoes''], s1_fdc_id = JNull\<rparr>] []
     = Inr [\<lparr>slug = ''roma-tomato'', displayName = ''Tomato'',
             surfaceForms = [''Tomato'', ''Roma Tomato'', ''tomatoes''],
             tokens = [''roma'', ''tomato'', ''tomatoes''],
             modifiers = \<lparr>color = [], form = [], prep = [], size' = [], origin = []\<rparr>,
             aliases = [],
             fdc = \<lparr>fdc_fdcId = None, fdc_dataType = None, fdc_description = None\<rparr>,
             equivalenceClass = ''roma-tomato'',
             taxonomy = \<lparr>group' = None, family = None, genus = None, species = None\<rparr>,
             substitutions = []\<rparr>]
   \<and> ''roma-tomato'' \<noteq> ''tomato''"
  by code_simp

text \<open>
  C4, amended: for a Source A record with normalized name "Roma Tomato", canonical name
  "Tomato" and synonyms ["tomatoes"], and no Source B record of the slug \<open>roma-tomato\<close>, the
  build succeeds and the knowledge base has exactly one entry of the slug \<open>roma-tomato\<close>;
  its display name is "Tomato", its surface forms are exactly
  ["Tomato", "Roma Tomato", "tomatoes"] and its tokens are "roma", "tomato" and "tomatoes".
\<close>

theorem scenario_1_roma_tomato:
  assumes "''roma-tomato'' \<notin> s2_slug ` set raw2"
  shows "\<exists>es. main_build f
       [\<lparr>s1_normalized_name = ''Roma Tomato'', s1_canonical_name = Some ''Tomato'',
         s1_synonyms = Some [''tomatoes''], s1_fdc_id = JNull\<rparr>] raw2 = Inr es
     \<and> filter (\<lambda>e. slug e = ''roma-tomato'') es
         = [\<lparr>slug = ''roma-tomato'', displayName = ''Tomato'',
             surfaceForms = [''Tomato'', ''Roma Tomato'', ''tomatoes''],
             tokens = [''roma'', ''tomato'', ''tomatoes''],
             modifiers = \<lparr>color = [], form = [], prep = [], size' = [], origin = []\<rparr>,
             aliases = [],
             fdc = \<lparr>fdc_fdcId = None, fdc_dataType = None, fdc_description = None\<rparr>,
             equivalenceClass = ''roma-tomato'',
             taxonomy = \<lparr>group' = None, family = None, genus = None, species = None\<rparr>,
             substitutions = []\<rparr>]"
proof -
  let ?item = "\<lparr>s1_normalized_name = ''Roma Tomato'', s1_canonical_name = Some ''Tomato'',
      s1_synonyms = Some [''tomatoes''], s1_fdc_id = JNull\<rparr>"
  let ?e1 = "\<lparr>slug = ''roma-tomato'', displayName = ''Tomato'',
      surfaceForms = [''Tomato'', ''Roma Tomato'', ''tomatoes''], fdcId = None\<rparr>"
  let ?s2 = "load_s2 f raw2"
  have sl: "slugify ''Roma Tomato'' = ''roma-tomato''"
    by code_simp
  have dd: "dedup_ordered [''Tomato'', ''Roma Tomato'', ''tomatoes'']
      = [''Tomato'', ''Roma Tomato'', ''tomatoes'']"
    by code_simp
  have s1: "load_s1 f [?item] = [(''roma-tomato'', ?e1)]"
    by (simp add: load_s1_def Let_def sl dd normalize_fdc_id_def)
  have h1: "map_of (load_s1 f [?item]) ''roma-tomato'' = Some ?e1"
    unfolding s1 by simp
  have h2: "map_of ?s2 ''roma-tomato'' = None"
    using assms by (simp add: map_of_eq_None_iff load_s2_keys)
  from merge_entries_only_s1 [OF h1 h2] obtain ms
    where ms: "merge_entries (load_s1 f [?item]) ?s2 = Inr ms"
      and fl: "filter (\<lambda>m. slug m = ''roma-tomato'') ms = [?e1]"
    by auto
  have en: "enrich_entry ?e1 =
      \<lparr>slug = ''roma-tomato'', displayName = ''Tomato'',
       surfaceForms = [''Tomato'', ''Roma Tomato'', ''tomatoes''],
       tokens = [''roma'', ''tomato'', ''tomatoes''],
       modifiers = \<lparr>color = [], form = [], prep = [], size' = [], origin = []\<rparr>,
       aliases = [],
       fdc = \<lparr>fdc_fdcId = None, fdc_dataType = None, fdc_description = None\<rparr>,
       equivalenceClass = ''roma-tomato'',
       taxonomy = \<lparr>group' = None, family = None, genus = None, species = None\<rparr>,
       substitutions = []\<rparr>"
    by code_simp
  have "filter (\<lambda>e. slug e = ''roma-tomato'') (map enrich_entry ms)
      = map enrich_entry (filter (\<lambda>m. slug m = ''roma-tomato'') ms)"
    by (simp add: filter_map comp_def slug_enrich_entry)
  also have "\<dots> = [enrich_entry ?e1]"
    by (simp only: fl list.map)
  finally have "filter (\<lambda>e. slug e = ''roma-tomato'') (map enrich_entry ms) = [enrich_entry ?e1]" .
  moreover have "main_build f [?item] raw2 = Inr (map enrich_entry ms)"
    by (simp add: main_build_def ms)
  ultimately show ?thesis
    by (simp only: en) blast
qed

theorem scenario_1_roma_tomato_witness:
  "\<exists>es. main_build Map.empty
       [\<lparr>s1_normalized_name = ''Roma Tomato'', s1_canonical_name = Some ''Tomato'',
         s1_synonyms = Some [''tomatoes''], s1_fdc_id = JNull\<rparr>]
       [\<lparr>s2_slug = ''tomato'', s2_display_name = ''Tomato'',
         s2_synonym_array = None, s2_fdc_id = JStr ''170457''\<rparr>] = Inr es
     \<and> filter (\<lambda>e. slug e = ''roma-tomato'') es
         = [\<lparr>slug = ''roma-tomato'', displayName = ''Tomato'',
             surfaceForms = [''Tomato'', ''Roma Tomato'', ''tomatoes''],
             tokens = [''roma'', ''tomato'', ''tomatoes''],
             modifiers = \<lparr>color = [], form = [], prep = [], size' = [], origin = []\<rparr>,
             aliases = [],
             fdc = \<lparr>fdc_fdcId = None, fdc_dataType = None, fdc_description = None\<rparr>,
             equivalenceClass = ''roma-tomato'',
             taxonomy = \<lparr>group' = None, family = None, genus = None, species = None\<rparr>,
             substitutions = []\<rparr>]"
proof -
  have "''roma-tomato'' \<notin> s2_slug ` set [\<lparr>s2_slug = ''tomato'', s2_display_name = ''Tomato'',
      s2_synonym_array = None, s2_fdc_id = JStr ''170457''\<rparr>]"
    by simp
  then show ?thesis
    by (rule scenario_1_roma_tomato)
qed

section \<open>Properties of the patch applier\<close>

subsection \<open>Adding surface forms to one entry\<close>

lemma add_forms_acc: "add_forms ex sfs fs = sfs @ add_forms ex [] fs"
proof (induction fs arbitrary: ex sfs)
  case Nil
  show ?case by simp
next
  case (Cons f fs)
  show ?case
  proof (cases "lower f \<in> ex")
    case True
    then have "add_forms ex sfs (f # fs) = add_forms ex sfs fs"
      and "add_forms ex [] (f # fs) = add_forms ex [] fs"
      by simp_all
    with Cons.IH [of ex sfs] show ?thesis
      by (simp only:)
  next
    case False
    then have "add_forms ex sfs (f # fs) = add_forms (insert (lower f) ex) (sfs @ [f]) fs"
      by simp
    also have "\<dots> = (sfs @ [f]) @ add_forms (insert (lower f) ex) [] fs"
      by (rule Cons.IH)
    also have "\<dots> = sfs @ ([f] @ add_forms (insert (lower f) ex) [] fs)"
      by simp
    also have "[f] @ add_forms (insert (lower f) ex) [] fs
        = add_forms (insert (lower f) ex) [f] fs"
      by (rule Cons.IH [symmetric])
    also have "\<dots> = add_forms ex [] (f # fs)"
      using False by simp
    finally show ?thesis .
  qed
qed


lemma add_forms_covers:
  "lower ` set fs \<subseteq> ex \<union> lower ` set (add_forms ex [] fs)"
proof (induction fs arbitrary: ex)
  case Nil
  show ?case by simp
next
  case (Cons f fs)
  show ?case
  proof (cases "lower f \<in> ex")
    case True
    with Cons.IH [of ex] show ?thesis by auto
  next
    case False
    have a: "add_forms ex [] (f # fs) = f # add_forms (insert (lower f) ex) [] fs"
      using False add_forms_acc [of "insert (lower f) ex" "[f]" fs] by simp
    from Cons.IH [of "insert (lower f) ex"] show ?thesis
      unfolding a by auto
  qed
qed


lemma merge_forms_appends:
  "merge_forms e fs
     = e\<lparr>surfaceForms := surfaceForms e @ add_forms (lower ` set (surfaceForms e)) [] fs\<rparr>"
  unfolding merge_forms_def
  using add_forms_acc [of "lower ` set (surfaceForms e)" "surfaceForms e" fs]
  by simp

lemma slug_merge_forms: "slug (merge_forms e fs) = slug e"
  by (simp add: merge_forms_def)

lemma merge_forms_covers:
  "lower ` set fs \<subseteq> lower ` set (surfaceForms (merge_forms e fs))"
  using add_forms_covers [of fs "lower ` set (surfaceForms e)"]
  by (simp add: merge_forms_appends image_Un)

lemma merge_forms_keeps:
  "lower ` set (surfaceForms e) \<subseteq> lower ` set (surfaceForms (merge_forms e fs))"
  by (simp add: merge_forms_appends image_Un)



subsection \<open>Entries that only grow\<close>

lemma only_appends_refl: "only_appends e e"
  by (simp add: only_appends_def)

lemma only_appends_trans:
  assumes "only_appends a b" and "only_appends b c"
  shows "only_appends a c"
proof -
  from assms have ab: "b\<lparr>surfaceForms := surfaceForms a\<rparr> = a"
    and bc: "c\<lparr>surfaceForms := surfaceForms b\<rparr> = b"
    and pa: "take (length (surfaceForms a)) (surfaceForms b) = surfaceForms a"
    and pb: "take (length (surfaceForms b)) (surfaceForms c) = surfaceForms b"
    by (simp_all add: only_appends_def)
  have "c\<lparr>surfaceForms := surfaceForms a\<rparr>
      = (c\<lparr>surfaceForms := surfaceForms b\<rparr>)\<lparr>surfaceForms := surfaceForms a\<rparr>"
    by simp
  also have "\<dots> = a"
    by (simp only: bc ab)
  finally have 1: "c\<lparr>surfaceForms := surfaceForms a\<rparr> = a" .
  have "length (surfaceForms a) \<le> length (surfaceForms b)"
    using arg_cong [OF pa, of length] by simp
  then have "take (length (surfaceForms a)) (surfaceForms c)
      = take (length (surfaceForms a)) (take (length (surfaceForms b)) (surfaceForms c))"
    by (simp add: min_def)
  also have "\<dots> = surfaceForms a"
    by (simp only: pb pa)
  finally show ?thesis
    using 1 by (simp add: only_appends_def)
qed

lemma only_appends_merge_forms: "only_appends e (merge_forms e fs)"
  by (simp add: only_appends_def merge_forms_appends)

lemma only_appends_fields:
  assumes "only_appends e e'"
  shows "slug e' = slug e" and "displayName e' = displayName e" and "tokens e' = tokens e"
    and "modifiers e' = modifiers e" and "aliases e' = aliases e" and "fdc e' = fdc e"
    and "equivalenceClass e' = equivalenceClass e" and "taxonomy e' = taxonomy e"
    and "substitutions e' = substitutions e"
    and "take (length (surfaceForms e)) (surfaceForms e') = surfaceForms e"
proof -
  from assms have e: "e = e'\<lparr>surfaceForms := surfaceForms e\<rparr>"
    and t: "take (length (surfaceForms e)) (surfaceForms e') = surfaceForms e"
    by (simp_all add: only_appends_def)
  from arg_cong [OF e, of slug] show "slug e' = slug e" by simp
  from arg_cong [OF e, of displayName] show "displayName e' = displayName e" by simp
  from arg_cong [OF e, of tokens] show "tokens e' = tokens e" by simp
  from arg_cong [OF e, of modifiers] show "modifiers e' = modifiers e" by simp
  from arg_cong [OF e, of aliases] show "aliases e' = aliases e" by simp
  from arg_cong [OF e, of fdc] show "fdc e' = fdc e" by simp
  from arg_cong [OF e, of equivalenceClass] show "equivalenceClass e' = equivalenceClass e" by simp
  from arg_cong [OF e, of taxonomy] show "taxonomy e' = taxonomy e" by simp
  from arg_cong [OF e, of substitutions] show "substitutions e' = substitutions e" by simp
  show "take (length (surfaceForms e)) (surfaceForms e') = surfaceForms e" by (rule t)
qed


subsection \<open>The slug index\<close>

lemma build_index_snoc:
  "build_index (ont @ [e]) = (build_index ont)(slug e \<mapsto> length ont)"
  by (simp add: build_index_def enumerate_append_eq)

lemma index_ok_Nil: "index_ok [] Map.empty"
  by (simp add: index_ok_def)

lemma index_ok_snoc:
  assumes "index_ok slugs idx"
  shows "index_ok (slugs @ [s]) (idx(s \<mapsto> length slugs))"
  unfolding index_ok_def
proof
  fix k
  from assms have k: "case idx k of None \<Rightarrow> k \<notin> set slugs
      | Some i \<Rightarrow> i < length slugs \<and> slugs ! i = k \<and> (\<forall>j<length slugs. i < j \<longrightarrow> slugs ! j \<noteq> k)"
    by (simp add: index_ok_def)
  show "case (idx(s \<mapsto> length slugs)) k of None \<Rightarrow> k \<notin> set (slugs @ [s])
      | Some i \<Rightarrow> i < length (slugs @ [s]) \<and> (slugs @ [s]) ! i = k
          \<and> (\<forall>j<length (slugs @ [s]). i < j \<longrightarrow> (slugs @ [s]) ! j \<noteq> k)"
  proof (cases "k = s")
    case True
    then show ?thesis by simp
  next
    case False
    show ?thesis
    proof (cases "idx k")
      case None
      with k False show ?thesis by simp
    next
      case (Some i)
      with k have i: "i < length slugs" "slugs ! i = k"
        "\<forall>j<length slugs. i < j \<longrightarrow> slugs ! j \<noteq> k"
        by simp_all
      have "\<forall>j<length (slugs @ [s]). i < j \<longrightarrow> (slugs @ [s]) ! j \<noteq> k"
      proof (intro allI impI)
        fix j assume "j < length (slugs @ [s])" "i < j"
        then show "(slugs @ [s]) ! j \<noteq> k"
          using i(3) False by (cases "j < length slugs") (auto simp: nth_append)
      qed
      with i False Some show ?thesis
        by (simp add: nth_append)
    qed
  qed
qed

lemma build_index_ok: "index_ok (map slug ont) (build_index ont)"
proof (induction ont rule: rev_induct)
  case Nil
  show ?case by (simp add: build_index_def index_ok_Nil)
next
  case (snoc e ont)
  have "map slug (ont @ [e]) = map slug ont @ [slug e]"
    by simp
  moreover have "length ont = length (map slug ont)"
    by simp
  ultimately show ?case
    using index_ok_snoc [OF snoc, of "slug e"]
    by (simp only: build_index_snoc)
qed

lemma index_ok_None: "index_ok slugs idx \<Longrightarrow> idx s = None \<longleftrightarrow> s \<notin> set slugs"
proof -
  assume "index_ok slugs idx"
  then have "case idx s of None \<Rightarrow> s \<notin> set slugs
      | Some i \<Rightarrow> i < length slugs \<and> slugs ! i = s \<and> (\<forall>j<length slugs. i < j \<longrightarrow> slugs ! j \<noteq> s)"
    by (simp add: index_ok_def)
  then show ?thesis
    by (cases "idx s") auto
qed

lemma index_ok_Some:
  assumes "index_ok slugs idx" and "idx s = Some i"
  shows "i < length slugs" and "slugs ! i = s" and "\<forall>j<length slugs. i < j \<longrightarrow> slugs ! j \<noteq> s"
proof -
  from assms(1) have "case idx s of None \<Rightarrow> s \<notin> set slugs
      | Some i \<Rightarrow> i < length slugs \<and> slugs ! i = s \<and> (\<forall>j<length slugs. i < j \<longrightarrow> slugs ! j \<noteq> s)"
    by (simp add: index_ok_def)
  with assms(2) show "i < length slugs" and "slugs ! i = s"
    and "\<forall>j<length slugs. i < j \<longrightarrow> slugs ! j \<noteq> s"
    by simp_all
qed


subsection \<open>States that only grow\<close>

lemma grows_refl: "grows st st"
  by (simp add: grows_def only_appends_refl)

lemma grows_trans:
  assumes "grows a b" and "grows b c"
  shows "grows a c"
  unfolding grows_def
proof (intro conjI allI impI)
  from assms show "length (ontology a) \<le> length (ontology c)"
    by (simp add: grows_def)
next
  fix i assume i: "i < length (ontology a)"
  with assms(1) have "only_appends (ontology a ! i) (ontology b ! i)"
    and "i < length (ontology b)"
    by (simp_all add: grows_def)
  moreover with assms(2) have "only_appends (ontology b ! i) (ontology c ! i)"
    by (simp add: grows_def)
  ultimately show "only_appends (ontology a ! i) (ontology c ! i)"
    by (blast intro: only_appends_trans)
next
  fix s i assume "slug_index a s = Some i"
  with assms(1) have "slug_index b s = Some i"
    by (simp add: grows_def)
  with assms(2) show "slug_index c s = Some i"
    by (simp add: grows_def)
qed

lemma grows_warnings: "grows st (st\<lparr>warnings := w\<rparr>)"
  by (simp add: grows_def only_appends_refl)

lemma state_ok_warnings: "state_ok (st\<lparr>warnings := w\<rparr>) = state_ok st"
  by (simp add: state_ok_def)

lemma covered_warnings: "covered (st\<lparr>warnings := w\<rparr>) s fs = covered st s fs"
  by (simp add: covered_def split: option.splits)

lemma state_ok_index:
  assumes "state_ok st" and "slug_index st s = Some i"
  shows "i < length (ontology st)" and "slug (ontology st ! i) = s"
  using index_ok_Some(1,2) [OF assms(1) [unfolded state_ok_def] assms(2)] by simp_all

lemma merge_step:
  fixes fs :: "string list"
  assumes ok: "state_ok st" and i: "slug_index st s = Some i"
  defines "st' \<equiv> st\<lparr>ontology := (ontology st)[i := merge_forms (ontology st ! i) fs]\<rparr>"
  shows "state_ok st'" and "grows st st'" and "covered st' s fs"
    and "slug_index st' = slug_index st"
    and "map slug (ontology st') = map slug (ontology st)"
proof -
  from state_ok_index [OF ok i] have l: "i < length (ontology st)" by simp
  have "map slug (ontology st') = (map slug (ontology st))[i := slug (ontology st ! i)]"
    by (simp add: st'_def map_update slug_merge_forms)
  also have "\<dots> = map slug (ontology st)"
    using l by (simp add: list_update_same_conv)
  finally show m: "map slug (ontology st') = map slug (ontology st)" .
  show x: "slug_index st' = slug_index st"
    by (simp add: st'_def)
  from ok show "state_ok st'"
    by (simp only: state_ok_def m x)
  show "grows st st'"
    unfolding grows_def
  proof (intro conjI allI impI)
    show "length (ontology st) \<le> length (ontology st')"
      by (simp add: st'_def)
  next
    fix j assume "j < length (ontology st)"
    then show "only_appends (ontology st ! j) (ontology st' ! j)"
      by (cases "j = i")
        (simp_all add: st'_def only_appends_merge_forms only_appends_refl)
  next
    fix k j assume "slug_index st k = Some j"
    then show "slug_index st' k = Some j"
      by (simp add: st'_def)
  qed
  show "covered st' s fs"
    using i l by (simp add: covered_def st'_def merge_forms_covers)
qed

lemma insert_step:
  assumes ok: "state_ok st" and n: "slug_index st (slug c) = None"
  defines "st' \<equiv> st\<lparr>ontology := ontology st @ [enrich_new_entry c],
      slug_index := (slug_index st)(slug c \<mapsto> length (ontology st))\<rparr>"
  shows "state_ok st'" and "grows st st'" and "covered st' (slug c) (surfaceForms c)"
proof -
  have s: "slug (enrich_new_entry c) = slug c"
    by (simp add: enrich_new_entry_def Let_def)
  from ok have "index_ok (map slug (ontology st) @ [slug c])
      ((slug_index st)(slug c \<mapsto> length (map slug (ontology st))))"
    unfolding state_ok_def by (rule index_ok_snoc)
  then show "state_ok st'"
    by (simp add: state_ok_def st'_def s)
  show "grows st st'"
    unfolding grows_def
  proof (intro conjI allI impI)
    show "length (ontology st) \<le> length (ontology st')"
      by (simp add: st'_def)
  next
    fix j assume "j < length (ontology st)"
    then show "only_appends (ontology st ! j) (ontology st' ! j)"
      by (simp add: st'_def nth_append only_appends_refl)
  next
    fix k j assume "slug_index st k = Some j"
    with n have "k \<noteq> slug c" by auto
    with \<open>slug_index st k = Some j\<close> show "slug_index st' k = Some j"
      by (simp add: st'_def)
  qed
  show "covered st' (slug c) (surfaceForms c)"
    by (simp add: covered_def st'_def enrich_new_entry_def Let_def)
qed


subsection \<open>The two loops\<close>

lemma warnings_ontology_commute:
  "(st\<lparr>warnings := w\<rparr>)\<lparr>ontology := x\<rparr> = (st\<lparr>ontology := x\<rparr>)\<lparr>warnings := w\<rparr>"
  by (cases st) simp

lemma warnings_insert_commute:
  "(st\<lparr>warnings := w\<rparr>)\<lparr>ontology := x, slug_index := y\<rparr>
     = (st\<lparr>ontology := x, slug_index := y\<rparr>)\<lparr>warnings := w\<rparr>"
  by (cases st) simp

lemma psf_index: "slug_index (patch_surface_forms ps st) = slug_index st"
proof (induction ps arbitrary: st)
  case Nil
  show ?case by simp
next
  case (Cons p ps)
  obtain s fs where p: "p = (s, fs)" by (cases p)
  show ?case
    unfolding p by (cases "slug_index st s") (simp_all add: Cons.IH)
qed

lemma psf_append:
  "patch_surface_forms (ps1 @ ps2) st = patch_surface_forms ps2 (patch_surface_forms ps1 st)"
proof (induction ps1 arbitrary: st)
  case Nil
  show ?case by simp
next
  case (Cons p ps1)
  obtain s fs where p: "p = (s, fs)" by (cases p)
  show ?case
    unfolding p by (cases "slug_index st s") (simp_all add: Cons.IH)
qed

lemma psf_warnings:
  "warnings (patch_surface_forms ps st)
     = warnings st @ filter (\<lambda>k. slug_index st k = None) (map fst ps)"
proof (induction ps arbitrary: st)
  case Nil
  show ?case by simp
next
  case (Cons p ps)
  obtain s fs where p: "p = (s, fs)" by (cases p)
  show ?case
    unfolding p by (cases "slug_index st s") (simp_all add: Cons.IH)
qed


lemma psf_props:
  assumes "state_ok st"
  shows "state_ok (patch_surface_forms ps st) \<and> grows st (patch_surface_forms ps st)"
  using assms
proof (induction ps arbitrary: st)
  case Nil
  then show ?case by (simp add: grows_refl)
next
  case (Cons p ps)
  obtain s fs where p: "p = (s, fs)" by (cases p)
  show ?case
  proof (cases "slug_index st s")
    case None
    let ?st = "st\<lparr>warnings := warnings st @ [s]\<rparr>"
    have ok: "state_ok ?st"
      using Cons.prems by (simp add: state_ok_warnings)
    from Cons.IH [OF ok] grows_warnings [of st "warnings st @ [s]"]
    have "state_ok (patch_surface_forms ps ?st)" "grows st (patch_surface_forms ps ?st)"
      by (blast intro: grows_trans)+
    with None show ?thesis
      unfolding p by simp
  next
    case (Some i)
    let ?st = "st\<lparr>ontology := (ontology st)[i := merge_forms (ontology st ! i) fs]\<rparr>"
    from merge_step(1,2) [OF Cons.prems Some, of fs]
    have ok: "state_ok ?st" and g: "grows st ?st"
      by simp_all
    from Cons.IH [OF ok] g
    have "state_ok (patch_surface_forms ps ?st)" "grows st (patch_surface_forms ps ?st)"
      by (blast intro: grows_trans)+
    with Some show ?thesis
      unfolding p by simp
  qed
qed


lemma ane_warnings: "warnings (add_new_entries cs st) = warnings st"
proof (induction cs arbitrary: st)
  case Nil
  show ?case by simp
next
  case (Cons c cs)
  show ?case
    by (cases "slug_index st (slug c)") (simp_all add: Cons.IH)
qed

lemma ane_ontology_warnings:
  "ontology (add_new_entries cs (st\<lparr>warnings := w\<rparr>)) = ontology (add_new_entries cs st)"
proof (induction cs arbitrary: st w)
  case Nil
  show ?case by simp
next
  case (Cons c cs)
  show ?case
  proof (cases "slug_index st (slug c)")
    case None
    let ?st = "st\<lparr>ontology := ontology st @ [enrich_new_entry c],
      slug_index := (slug_index st)(slug c \<mapsto> length (ontology st))\<rparr>"
    have "add_new_entries (c # cs) (st\<lparr>warnings := w\<rparr>)
        = add_new_entries cs (?st\<lparr>warnings := w\<rparr>)"
      using None by (simp add: warnings_insert_commute)
    moreover have "add_new_entries (c # cs) st = add_new_entries cs ?st"
      using None by simp
    moreover have "ontology (add_new_entries cs (?st\<lparr>warnings := w\<rparr>))
        = ontology (add_new_entries cs ?st)"
      by (rule Cons.IH)
    ultimately show ?thesis
      by (simp only:)
  next
    case (Some i)
    let ?st = "st\<lparr>ontology :=
      (ontology st)[i := merge_forms (ontology st ! i) (surfaceForms c)]\<rparr>"
    have "add_new_entries (c # cs) (st\<lparr>warnings := w\<rparr>)
        = add_new_entries cs (?st\<lparr>warnings := w\<rparr>)"
      using Some by (simp add: warnings_ontology_commute)
    moreover have "add_new_entries (c # cs) st = add_new_entries cs ?st"
      using Some by simp
    moreover have "ontology (add_new_entries cs (?st\<lparr>warnings := w\<rparr>))
        = ontology (add_new_entries cs ?st)"
      by (rule Cons.IH)
    ultimately show ?thesis
      by (simp only:)
  qed
qed

lemma ane_props:
  assumes "state_ok st"
  shows "state_ok (add_new_entries cs st) \<and> grows st (add_new_entries cs st)"
  using assms
proof (induction cs arbitrary: st)
  case Nil
  then show ?case by (simp add: grows_refl)
next
  case (Cons c cs)
  show ?case
  proof (cases "slug_index st (slug c)")
    case None
    let ?st = "st\<lparr>ontology := ontology st @ [enrich_new_entry c],
      slug_index := (slug_index st)(slug c \<mapsto> length (ontology st))\<rparr>"
    from insert_step(1,2) [OF Cons.prems None]
    have ok: "state_ok ?st" and g: "grows st ?st"
      by simp_all
    from Cons.IH [OF ok] g
    have "state_ok (add_new_entries cs ?st)" "grows st (add_new_entries cs ?st)"
      by (blast intro: grows_trans)+
    with None show ?thesis by simp
  next
    case (Some i)
    let ?st = "st\<lparr>ontology := (ontology st)[i := merge_forms (ontology st ! i) (surfaceForms c)]\<rparr>"
    from merge_step(1,2) [OF Cons.prems Some, of "surfaceForms c"]
    have ok: "state_ok ?st" and g: "grows st ?st"
      by simp_all
    from Cons.IH [OF ok] g
    have "state_ok (add_new_entries cs ?st)" "grows st (add_new_entries cs ?st)"
      by (blast intro: grows_trans)+
    with Some show ?thesis by simp
  qed
qed



subsection \<open>The run of a patch script\<close>

lemma initial_state_ok:
  "state_ok \<lparr>ontology = ont, slug_index = build_index ont, warnings = []\<rparr>"
  by (simp add: state_ok_def build_index_ok)

lemma build_index_None: "build_index ont s = None \<longleftrightarrow> s \<notin> slug ` set ont"
  using index_ok_None [OF build_index_ok, of ont s] by simp

lemma patch_steps_props:
  "state_ok (patch_steps P ont)"
  "grows \<lparr>ontology = ont, slug_index = build_index ont, warnings = []\<rparr> (patch_steps P ont)"
proof -
  let ?st0 = "\<lparr>ontology = ont, slug_index = build_index ont, warnings = []\<rparr>"
  let ?st1 = "patch_surface_forms (SURFACE_FORM_PATCHES P) ?st0"
  from psf_props [OF initial_state_ok, of "SURFACE_FORM_PATCHES P" ont]
  have 1: "state_ok ?st1" "grows ?st0 ?st1"
    by simp_all
  from ane_props [OF 1(1), of "NEW_ENTRIES P"]
  have 2: "state_ok (add_new_entries (NEW_ENTRIES P) ?st1)"
    "grows ?st1 (add_new_entries (NEW_ENTRIES P) ?st1)"
    by simp_all
  from 2(1) show "state_ok (patch_steps P ont)"
    by (simp add: patch_steps_def)
  from 1(2) 2(2) show "grows ?st0 (patch_steps P ont)"
    unfolding patch_steps_def by (rule grows_trans)
qed

lemma apply_patch_sort: "apply_patch ont P = sort_key slug (ontology (patch_steps P ont))"
  by (simp add: apply_patch_def main_patch_def Let_def)

text \<open>
  C6: a patch leaves every field of a pre-existing entry but \<open>surfaceForms\<close> as it was.
  The entry at position \<open>i\<close> of the base is, after both steps, still at position \<open>i\<close> with
  the same slug, display name, external reference (\<open>fdc\<close>), equivalence class, tokens,
  modifiers and stub fields; its old surface forms are the first of its new surface
  forms, so the steps only appended; and this entry is in the knowledge base written
  back. Tokens, modifiers and equivalence class are not derived again: the witness below
  shows an entry whose tokens stay as they were while \<open>derive_tokens\<close> of its new surface
  forms gives a different list.
\<close>

theorem patch_freezes_fields:
  assumes "i < length ont"
  shows "slug (ontology (patch_steps P ont) ! i) = slug (ont ! i)
     \<and> displayName (ontology (patch_steps P ont) ! i) = displayName (ont ! i)
     \<and> fdc (ontology (patch_steps P ont) ! i) = fdc (ont ! i)
     \<and> equivalenceClass (ontology (patch_steps P ont) ! i) = equivalenceClass (ont ! i)
     \<and> tokens (ontology (patch_steps P ont) ! i) = tokens (ont ! i)
     \<and> modifiers (ontology (patch_steps P ont) ! i) = modifiers (ont ! i)
     \<and> aliases (ontology (patch_steps P ont) ! i) = aliases (ont ! i)
     \<and> taxonomy (ontology (patch_steps P ont) ! i) = taxonomy (ont ! i)
     \<and> substitutions (ontology (patch_steps P ont) ! i) = substitutions (ont ! i)
     \<and> take (length (surfaceForms (ont ! i))) (surfaceForms (ontology (patch_steps P ont) ! i))
         = surfaceForms (ont ! i)
     \<and> ontology (patch_steps P ont) ! i \<in> set (apply_patch ont P)"
proof -
  let ?st0 = "\<lparr>ontology = ont, slug_index = build_index ont, warnings = []\<rparr>"
  from patch_steps_props(2) [of ont P] assms
  have l: "i < length (ontology (patch_steps P ont))"
    and a: "only_appends (ont ! i) (ontology (patch_steps P ont) ! i)"
    by (simp_all add: grows_def)
  from l have "ontology (patch_steps P ont) ! i \<in> set (apply_patch ont P)"
    by (simp add: apply_patch_sort)
  with only_appends_fields [OF a] show ?thesis
    by (intro conjI)
qed

theorem patch_freezes_fields_witness:
  "displayName (ontology (patch_steps
      \<lparr>SURFACE_FORM_PATCHES = [(''tomato'', [''Roma Tomato'', ''Tomatoes''])],
       NEW_ENTRIES = [\<lparr>slug = ''tomato'', displayName = ''Tomatoes (new)'',
         surfaceForms = [''diced tomato'', ''tomato''],
         c_fdc = \<lparr>fdc_fdcId = Some 170457, fdc_dataType = Some ''sr_legacy'',
                  fdc_description = Some ''Tomatoes, red''\<rparr>,
         c_equivalenceClass = Some ''tomatoes''\<rparr>]\<rparr>
      [enrich_entry \<lparr>slug = ''tomato'', displayName = ''Tomato'',
         surfaceForms = [''Tomato'', ''tomatoes''], fdcId = None\<rparr>] ) ! 0) = ''Tomato''
   \<and> tokens (ontology (patch_steps
      \<lparr>SURFACE_FORM_PATCHES = [(''tomato'', [''Roma Tomato'', ''Tomatoes''])],
       NEW_ENTRIES = [\<lparr>slug = ''tomato'', displayName = ''Tomatoes (new)'',
         surfaceForms = [''diced tomato'', ''tomato''],
         c_fdc = \<lparr>fdc_fdcId = Some 170457, fdc_dataType = Some ''sr_legacy'',
                  fdc_description = Some ''Tomatoes, red''\<rparr>,
         c_equivalenceClass = Some ''tomatoes''\<rparr>]\<rparr>
      [enrich_entry \<lparr>slug = ''tomato'', displayName = ''Tomato'',
         surfaceForms = [''Tomato'', ''tomatoes''], fdcId = None\<rparr>]) ! 0)
      = [''tomato'', ''tomatoes'']
   \<and> surfaceForms (ontology (patch_steps
      \<lparr>SURFACE_FORM_PATCHES = [(''tomato'', [''Roma Tomato'', ''Tomatoes''])],
       NEW_ENTRIES = [\<lparr>slug = ''tomato'', displayName = ''Tomatoes (new)'',
         surfaceForms = [''diced tomato'', ''tomato''],
         c_fdc = \<lparr>fdc_fdcId = Some 170457, fdc_dataType = Some ''sr_legacy'',
                  fdc_description = Some ''Tomatoes, red''\<rparr>,
         c_equivalenceClass = Some ''tomatoes''\<rparr>]\<rparr>
      [enrich_entry \<lparr>slug = ''tomato'', displayName = ''Tomato'',
         surfaceForms = [''Tomato'', ''tomatoes''], fdcId = None\<rparr>]) ! 0)
      = [''Tomato'', ''tomatoes'', ''Roma Tomato'', ''diced tomato'']
   \<and> derive_tokens [''Tomato'', ''tomatoes'', ''Roma Tomato'', ''diced tomato'']
      = [''diced'', ''roma'', ''tomato'', ''tomatoes'']"
proof -
  let ?P = "\<lparr>SURFACE_FORM_PATCHES = [(''tomato'', [''Roma Tomato'', ''Tomatoes''])],
      NEW_ENTRIES = [\<lparr>slug = ''tomato'', displayName = ''Tomatoes (new)'',
        surfaceForms = [''diced tomato'', ''tomato''],
        c_fdc = \<lparr>fdc_fdcId = Some 170457, fdc_dataType = Some ''sr_legacy'',
                 fdc_description = Some ''Tomatoes, red''\<rparr>,
        c_equivalenceClass = Some ''tomatoes''\<rparr>]\<rparr>"
  let ?ont = "[enrich_entry \<lparr>slug = ''tomato'', displayName = ''Tomato'',
      surfaceForms = [''Tomato'', ''tomatoes''], fdcId = None\<rparr>]"
  have e: "displayName (?ont ! 0) = ''Tomato''" "tokens (?ont ! 0) = [''tomato'', ''tomatoes'']"
    by code_simp+
  have s: "surfaceForms (ontology (patch_steps ?P ?ont) ! 0)
      = [''Tomato'', ''tomatoes'', ''Roma Tomato'', ''diced tomato'']"
    by code_simp
  have d: "derive_tokens [''Tomato'', ''tomatoes'', ''Roma Tomato'', ''diced tomato'']
      = [''diced'', ''roma'', ''tomato'', ''tomatoes'']"
    by code_simp
  have "0 < length ?ont" by simp
  from patch_freezes_fields [OF this, of ?P]
  have "displayName (ontology (patch_steps ?P ?ont) ! 0) = displayName (?ont ! 0)"
    and "tokens (ontology (patch_steps ?P ?ont) ! 0) = tokens (?ont ! 0)"
    by blast+
  with e s d show ?thesis
    by (simp only: simp_thms)
qed

lemma psf_warnings_state:
  "patch_surface_forms ps (st\<lparr>warnings := w\<rparr>)
     = (patch_surface_forms ps st)\<lparr>warnings :=
         w @ filter (\<lambda>k. slug_index st k = None) (map fst ps)\<rparr>"
proof (induction ps arbitrary: st w)
  case Nil
  show ?case by simp
next
  case (Cons p ps)
  obtain s fs where p: "p = (s, fs)" by (cases p)
  show ?case
  proof (cases "slug_index st s")
    case None
    have "patch_surface_forms ((s, fs) # ps) (st\<lparr>warnings := w\<rparr>)
        = patch_surface_forms ps (st\<lparr>warnings := w @ [s]\<rparr>)"
      using None by simp
    also have "\<dots> = (patch_surface_forms ps st)\<lparr>warnings :=
        (w @ [s]) @ filter (\<lambda>k. slug_index st k = None) (map fst ps)\<rparr>"
      by (rule Cons.IH)
    also have "patch_surface_forms ps st
        = (patch_surface_forms ps (st\<lparr>warnings := warnings st @ [s]\<rparr>))\<lparr>warnings :=
            warnings (patch_surface_forms ps st)\<rparr>"
      by (simp add: Cons.IH)
    finally show ?thesis
      unfolding p using None by simp
  next
    case (Some i)
    let ?st = "st\<lparr>ontology := (ontology st)[i := merge_forms (ontology st ! i) fs]\<rparr>"
    have "patch_surface_forms ((s, fs) # ps) (st\<lparr>warnings := w\<rparr>)
        = patch_surface_forms ps (?st\<lparr>warnings := w\<rparr>)"
      using Some by (simp add: warnings_ontology_commute)
    also have "\<dots> = (patch_surface_forms ps ?st)\<lparr>warnings :=
        w @ filter (\<lambda>k. slug_index ?st k = None) (map fst ps)\<rparr>"
      by (rule Cons.IH)
    finally show ?thesis
      unfolding p using Some by simp
  qed
qed

lemma run_warnings:
  "warnings (main_patch P ont)
     = filter (\<lambda>k. k \<notin> slug ` set ont) (map fst (SURFACE_FORM_PATCHES P))"
  by (simp add: main_patch_def Let_def patch_steps_def ane_warnings psf_warnings
      build_index_None)

lemma unknown_slug_step:
  assumes "s \<notin> slug ` set ont"
  shows "ontology (patch_steps \<lparr>SURFACE_FORM_PATCHES = ps1 @ (s, fs) # ps2, NEW_ENTRIES = news\<rparr> ont)
     = ontology (patch_steps \<lparr>SURFACE_FORM_PATCHES = ps1 @ ps2, NEW_ENTRIES = news\<rparr> ont)"
proof -
  let ?st0 = "\<lparr>ontology = ont, slug_index = build_index ont, warnings = []\<rparr>"
  let ?a = "patch_surface_forms ps1 ?st0"
  have n: "slug_index ?a s = None"
    using assms by (simp add: psf_index build_index_None)
  have "patch_surface_forms (ps1 @ (s, fs) # ps2) ?st0
      = patch_surface_forms ((s, fs) # ps2) ?a"
    by (rule psf_append)
  also have "\<dots> = patch_surface_forms ps2 (?a\<lparr>warnings := warnings ?a @ [s]\<rparr>)"
    using n by simp
  also have "\<dots> = (patch_surface_forms ps2 ?a)\<lparr>warnings :=
      (warnings ?a @ [s]) @ filter (\<lambda>k. slug_index ?a k = None) (map fst ps2)\<rparr>"
    by (rule psf_warnings_state)
  also have "patch_surface_forms ps2 ?a = patch_surface_forms (ps1 @ ps2) ?st0"
    by (rule psf_append [symmetric])
  finally show ?thesis
    by (simp add: patch_steps_def ane_ontology_warnings)
qed

text \<open>
  C9: a surface-form patch pair whose slug is absent from the knowledge base does not
  stop the run and changes nothing in the result. The knowledge base written is the one
  that the same patch specification without this pair gives, so every other pair and
  every new-entry candidate is applied as it would be without it; and the warnings of
  the run are the unknown slugs of the pairs in their order, this slug among them.
  (The loops of \<open>main\<close> have no failing operation: the model of the run is a total
  function.)
\<close>

theorem unknown_slug_is_skipped:
  assumes "s \<notin> slug ` set ont"
  shows "apply_patch ont \<lparr>SURFACE_FORM_PATCHES = ps1 @ (s, fs) # ps2, NEW_ENTRIES = news\<rparr>
       = apply_patch ont \<lparr>SURFACE_FORM_PATCHES = ps1 @ ps2, NEW_ENTRIES = news\<rparr>
     \<and> warnings (main_patch \<lparr>SURFACE_FORM_PATCHES = ps1 @ (s, fs) # ps2, NEW_ENTRIES = news\<rparr> ont)
       = filter (\<lambda>k. k \<notin> slug ` set ont) (map fst ps1)
         @ s # filter (\<lambda>k. k \<notin> slug ` set ont) (map fst ps2)"
proof -
  from unknown_slug_step [OF assms, of ps1 fs ps2 news]
  have "apply_patch ont \<lparr>SURFACE_FORM_PATCHES = ps1 @ (s, fs) # ps2, NEW_ENTRIES = news\<rparr>
      = apply_patch ont \<lparr>SURFACE_FORM_PATCHES = ps1 @ ps2, NEW_ENTRIES = news\<rparr>"
    by (simp only: apply_patch_sort)
  moreover have "warnings (main_patch \<lparr>SURFACE_FORM_PATCHES = ps1 @ (s, fs) # ps2, NEW_ENTRIES = news\<rparr> ont)
      = filter (\<lambda>k. k \<notin> slug ` set ont) (map fst ps1)
        @ s # filter (\<lambda>k. k \<notin> slug ` set ont) (map fst ps2)"
    using assms by (simp add: run_warnings)
  ultimately show ?thesis by blast
qed

theorem unknown_slug_is_skipped_witness:
  "apply_patch
     [enrich_entry \<lparr>slug = ''tomato'', displayName = ''Tomato'',
        surfaceForms = [''Tomato'', ''tomatoes''], fdcId = None\<rparr>]
     \<lparr>SURFACE_FORM_PATCHES =
        [(''tomato'', [''Roma Tomato''])] @ (''kale'', [''curly kale''])
          # [(''tomato'', [''plum tomatoes''])],
      NEW_ENTRIES = [\<lparr>slug = ''basil'', displayName = ''Basil'', surfaceForms = [''basil''],
        c_fdc = \<lparr>fdc_fdcId = None, fdc_dataType = None, fdc_description = None\<rparr>,
        c_equivalenceClass = None\<rparr>]\<rparr>
   = apply_patch
     [enrich_entry \<lparr>slug = ''tomato'', displayName = ''Tomato'',
        surfaceForms = [''Tomato'', ''tomatoes''], fdcId = None\<rparr>]
     \<lparr>SURFACE_FORM_PATCHES = [(''tomato'', [''Roma Tomato''])] @ [(''tomato'', [''plum tomatoes''])],
      NEW_ENTRIES = [\<lparr>slug = ''basil'', displayName = ''Basil'', surfaceForms = [''basil''],
        c_fdc = \<lparr>fdc_fdcId = None, fdc_dataType = None, fdc_description = None\<rparr>,
        c_equivalenceClass = None\<rparr>]\<rparr>
   \<and> warnings (main_patch
     \<lparr>SURFACE_FORM_PATCHES =
        [(''tomato'', [''Roma Tomato''])] @ (''kale'', [''curly kale''])
          # [(''tomato'', [''plum tomatoes''])],
      NEW_ENTRIES = [\<lparr>slug = ''basil'', displayName = ''Basil'', surfaceForms = [''basil''],
        c_fdc = \<lparr>fdc_fdcId = None, fdc_dataType = None, fdc_description = None\<rparr>,
        c_equivalenceClass = None\<rparr>]\<rparr>
     [enrich_entry \<lparr>slug = ''tomato'', displayName = ''Tomato'',
        surfaceForms = [''Tomato'', ''tomatoes''], fdcId = None\<rparr>]) = [''kale'']
   \<and> map surfaceForms (apply_patch
     [enrich_entry \<lparr>slug = ''tomato'', displayName = ''Tomato'',
        surfaceForms = [''Tomato'', ''tomatoes''], fdcId = None\<rparr>]
     \<lparr>SURFACE_FORM_PATCHES = [(''tomato'', [''Roma Tomato''])] @ [(''tomato'', [''plum tomatoes''])],
      NEW_ENTRIES = [\<lparr>slug = ''basil'', displayName = ''Basil'', surfaceForms = [''basil''],
        c_fdc = \<lparr>fdc_fdcId = None, fdc_dataType = None, fdc_description = None\<rparr>,
        c_equivalenceClass = None\<rparr>]\<rparr>)
     = [[''basil''], [''Tomato'', ''tomatoes'', ''Roma Tomato'', ''plum tomatoes'']]"
proof -
  let ?ont = "[enrich_entry \<lparr>slug = ''tomato'', displayName = ''Tomato'',
      surfaceForms = [''Tomato'', ''tomatoes''], fdcId = None\<rparr>]"
  have h: "''kale'' \<notin> slug ` set ?ont"
    by (simp add: slug_enrich_entry)
  have f: "filter (\<lambda>k. k \<notin> slug ` set ?ont) (map fst [(''tomato'', [''Roma Tomato''])]) = []"
    "filter (\<lambda>k. k \<notin> slug ` set ?ont) (map fst [(''tomato'', [''plum tomatoes''])]) = []"
    by (simp_all add: slug_enrich_entry)
  have v: "map surfaceForms (apply_patch ?ont
     \<lparr>SURFACE_FORM_PATCHES = [(''tomato'', [''Roma Tomato''])] @ [(''tomato'', [''plum tomatoes''])],
      NEW_ENTRIES = [\<lparr>slug = ''basil'', displayName = ''Basil'', surfaceForms = [''basil''],
        c_fdc = \<lparr>fdc_fdcId = None, fdc_dataType = None, fdc_description = None\<rparr>,
        c_equivalenceClass = None\<rparr>]\<rparr>)
     = [[''basil''], [''Tomato'', ''tomatoes'', ''Roma Tomato'', ''plum tomatoes'']]"
    by code_simp
  from unknown_slug_is_skipped [OF h, of "[(''tomato'', [''Roma Tomato''])]" "[''curly kale'']"
      "[(''tomato'', [''plum tomatoes''])]"] f v
  show ?thesis
    by simp
qed

subsection \<open>A second run\<close>













subsection \<open>Surface forms that differ beyond case\<close>












end
